theory Spec2Isabelle
  imports Main
begin

section \<open>Batch recording utilities (src/lib/batch.js)\<close>

text \<open>
  A shallow embedding of \<^verbatim>\<open>src/lib/batch.js\<close>. A JavaScript string is a
  \<open>string\<close>: one \<open>char\<close> stands for one code unit, so the model covers the strings
  whose code units are below 256. Thrown values are values of the type \<open>error\<close>, and a
  computation that may throw returns \<open>error + 'a\<close> with \<open>Inl\<close> for the throw.
  Calls of \<^verbatim>\<open>log\<close> are kept only in \<open>printBatchSummary\<close>, whose whole effect
  they are; elsewhere they do not influence what a function returns and are left out.
  Numbers are integers: indices, worker ids and the concurrency are whole numbers in the
  code's own use of them. An integer stands for the double of the same value, so the
  model is that of the code for the whole numbers whose magnitude is at most
  \<open>MAX_SAFE_INTEGER\<close>, which is \<open>2 ^ 53 - 1\<close>: there the code's arithmetic is exact and
  \<^verbatim>\<open>String\<close> prints every digit. Every index of an array is in that range.
\<close>

subsection \<open>Values, objects and errors\<close>

datatype error = Error string

datatype jsval = JUndefined | JBool bool | JNum int | JStr string

type_synonym jsobj = "string \<rightharpoonup> jsval"

text \<open>An array slot is \<open>None\<close> while it is a hole (\<^verbatim>\<open>new Array(n)\<close> makes \<open>n\<close> of them).\<close>

type_synonym jsarray = "jsobj option list"

subsection \<open>Numbers and strings of the platform\<close>

definition digit_char :: "nat \<Rightarrow> char" where
  "digit_char d = char_of (48 + d)"

text \<open>\<^verbatim>\<open>String(n)\<close> for a natural number: its decimal digits, no leading zero.\<close>

fun string_of_nat :: "nat \<Rightarrow> string" where
  "string_of_nat n =
     (if n < 10 then [digit_char n]
      else string_of_nat (n div 10) @ [digit_char (n mod 10)])"

declare string_of_nat.simps [simp del]

text \<open>\<^verbatim>\<open>Number.MAX_SAFE_INTEGER\<close>: up to this magnitude every whole number is a double
  and adding 1 to a whole number below it is exact.\<close>

definition MAX_SAFE_INTEGER :: int where
  "MAX_SAFE_INTEGER = 2 ^ 53 - 1"

text \<open>\<^verbatim>\<open>String(n)\<close> for a whole number of magnitude at most \<open>MAX_SAFE_INTEGER + 1\<close>: a
  minus sign before the digits of a negative one. (Beyond that the platform prints the
  shortest digits that read back as the same double, and from \<open>10 ^ 21\<close> on an exponent;
  that range is not modelled.)\<close>

definition String :: "int \<Rightarrow> string" where
  "String n = (if n < 0 then CHR ''-'' # string_of_nat (nat (- n)) else string_of_nat (nat n))"

text \<open>\<^verbatim>\<open>s.padStart(n, c)\<close> with a one-character filler: pads on the left up to length
  \<open>n\<close>, and leaves a string that is already that long as it is.\<close>

definition padStart :: "nat \<Rightarrow> char \<Rightarrow> string \<Rightarrow> string" where
  "padStart n c s = replicate (n - length s) c @ s"

text \<open>\<^verbatim>\<open>s.substring(0, n)\<close>.\<close>

definition substring0 :: "nat \<Rightarrow> string \<Rightarrow> string" where
  "substring0 n s = take n s"

definition is_alnum :: "char \<Rightarrow> bool" where
  "is_alnum c =
     (let n = (of_char c :: nat)
      in (97 \<le> n \<and> n \<le> 122) \<or> (65 \<le> n \<and> n \<le> 90) \<or> (48 \<le> n \<and> n \<le> 57))"

text \<open>\<^verbatim>\<open>s.replace(/[^a-zA-Z0-9]/g, '-')\<close>.\<close>

definition replace_non_alnum :: "string \<Rightarrow> string" where
  "replace_non_alnum s = map (\<lambda>c. if is_alnum c then c else CHR ''-'') s"

text \<open>\<^verbatim>\<open>s.replace(/[^a-zA-Z0-9-]/g, '-')\<close>.\<close>

definition replace_non_alnum_dash :: "string \<Rightarrow> string" where
  "replace_non_alnum_dash s =
     map (\<lambda>c. if is_alnum c \<or> c = CHR ''-'' then c else CHR ''-'') s"

text \<open>\<^verbatim>\<open>s.replace(/\./g, '-')\<close>.\<close>

definition replace_dots :: "string \<Rightarrow> string" where
  "replace_dots s = map (\<lambda>c. if c = CHR ''.'' then CHR ''-'' else c) s"

text \<open>\<^verbatim>\<open>s.startsWith(p)\<close>.\<close>

definition startsWith :: "string \<Rightarrow> string \<Rightarrow> bool" where
  "startsWith s p = (take (length p) s = p)"

text \<open>\<^verbatim>\<open>s.replace(/^www\./, '')\<close>.\<close>

definition strip_www :: "string \<Rightarrow> string" where
  "strip_www s = (if startsWith s ''www.'' then drop 4 s else s)"

text \<open>\<^verbatim>\<open>s.replace(/^\//, '')\<close>.\<close>

definition strip_leading_slash :: "string \<Rightarrow> string" where
  "strip_leading_slash s = (case s of c # r \<Rightarrow> if c = CHR ''/'' then r else s | [] \<Rightarrow> s)"

text \<open>\<^verbatim>\<open>s.replace(/\/$/, '')\<close>.\<close>

definition strip_trailing_slash :: "string \<Rightarrow> string" where
  "strip_trailing_slash s = (if s \<noteq> [] \<and> last s = CHR ''/'' then butlast s else s)"

text \<open>\<^verbatim>\<open>parts.join(sep)\<close> on an array of strings.\<close>

fun join_with :: "string \<Rightarrow> string list \<Rightarrow> string" where
  "join_with sep [] = []"
| "join_with sep [x] = x"
| "join_with sep (x # y # r) = x @ sep @ join_with sep (y # r)"

text \<open>\<^verbatim>\<open>s.split('\n')\<close>: the pieces between line feeds, one piece more than there are
  line feeds.\<close>

fun split_lines :: "string \<Rightarrow> string list" where
  "split_lines [] = [[]]"
| "split_lines (c # r) =
     (if c = CHR 0x0A then [] # split_lines r
      else (case split_lines r of l # ls \<Rightarrow> (c # l) # ls | [] \<Rightarrow> [[c]]))"

text \<open>The white space and line terminators that \<^verbatim>\<open>trim\<close> removes, among the code
  units below 256: tab, line feed, vertical tab, form feed, carriage return, space and
  no-break space.\<close>

definition is_space :: "char \<Rightarrow> bool" where
  "is_space c = (of_char c \<in> {9, 10, 11, 12, 13, 32, 160 :: nat})"

definition trim :: "string \<Rightarrow> string" where
  "trim s = rev (dropWhile is_space (rev (dropWhile is_space s)))"

subsection \<open>path.join (POSIX)\<close>

text \<open>
  Node's \<^verbatim>\<open>path.join\<close> on a POSIX platform: the non-empty arguments are joined with
  \<open>/\<close> and the result is normalised. Normalising drops empty and \<open>.\<close> segments and lets
  a \<open>..\<close> segment remove the segment before it; above the start of a relative path the
  \<open>..\<close> stays, above the root it is dropped.
\<close>

fun split_slash :: "string \<Rightarrow> string list" where
  "split_slash [] = [[]]"
| "split_slash (c # r) =
     (if c = CHR ''/'' then [] # split_slash r
      else (case split_slash r of l # ls \<Rightarrow> (c # l) # ls | [] \<Rightarrow> [[c]]))"

text \<open>The accumulator holds the segments kept so far, the last one first.\<close>

fun normalizeSegments :: "bool \<Rightarrow> string list \<Rightarrow> string list \<Rightarrow> string list" where
  "normalizeSegments allowAboveRoot acc [] = rev acc"
| "normalizeSegments allowAboveRoot acc (seg # segs) =
     (if seg = [] \<or> seg = ''.'' then normalizeSegments allowAboveRoot acc segs
      else if seg = ''..'' then
        (case acc of
           lastSegment # earlier \<Rightarrow>
             if lastSegment \<noteq> ''..'' then normalizeSegments allowAboveRoot earlier segs
             else if allowAboveRoot then normalizeSegments allowAboveRoot (seg # acc) segs
             else normalizeSegments allowAboveRoot acc segs
         | [] \<Rightarrow>
             if allowAboveRoot then normalizeSegments allowAboveRoot (seg # acc) segs
             else normalizeSegments allowAboveRoot acc segs)
      else normalizeSegments allowAboveRoot (seg # acc) segs)"

definition path_normalize :: "string \<Rightarrow> string" where
  "path_normalize path =
     (if path = [] then ''.''
      else
        let isAbsolute = (hd path = CHR ''/'');
            trailingSeparator = (last path = CHR ''/'');
            p = join_with ''/'' (normalizeSegments (\<not> isAbsolute) [] (split_slash path))
        in if p = [] then
             (if isAbsolute then ''/'' else if trailingSeparator then ''./'' else ''.'')
           else
             (let p' = (if trailingSeparator then p @ ''/'' else p)
              in if isAbsolute then CHR ''/'' # p' else p'))"

definition path_join :: "string list \<Rightarrow> string" where
  "path_join args =
     (let parts = filter (\<lambda>a. a \<noteq> []) args
      in if parts = [] then ''.'' else path_normalize (join_with ''/'' parts))"

subsection \<open>generateOutputPath\<close>

text \<open>
  What the code reads of a parsed \<^verbatim>\<open>URL\<close> object. The constructor \<^verbatim>\<open>new URL\<close>
  belongs to the platform; the functions below take it as the parameter \<open>new_URL\<close>,
  which throws (\<open>Inl\<close>) on a string that does not parse.
\<close>

record url =
  hostname :: string
  pathname :: string

type_synonym url_parser = "string \<Rightarrow> error + url"

text \<open>The prefix of a file name: \<^verbatim>\<open>String(index + 1).padStart(3, '0')\<close>. The sum
  \<open>index + 1\<close> is the code's for \<open>index \<le> MAX_SAFE_INTEGER\<close> in magnitude; above that
  the code's sum is rounded to a double, and the statements below do not speak of it.\<close>

definition index_prefix :: "int \<Rightarrow> string" where
  "index_prefix index = padStart 3 (CHR ''0'') (String (index + 1))"

definition generateOutputPath :: "url_parser \<Rightarrow> string \<Rightarrow> int \<Rightarrow> string \<Rightarrow> error + string" where
  "generateOutputPath new_URL u index outputDir =
     (case new_URL u of
        Inl _ \<Rightarrow>
          (let slug = substring0 50 (replace_non_alnum u);
               prefix = index_prefix index
           in Inr (path_join [outputDir, prefix @ ''-'' @ slug @ ''.mp4'']))
      | Inr parsed \<Rightarrow>
          (let hostname = strip_www (hostname parsed);
               pathSlug = substring0 60 (replace_non_alnum_dash
                            (strip_trailing_slash (strip_leading_slash (pathname parsed))));
               prefix = index_prefix index;
               hostPart = replace_dots hostname;
               nameParts = [prefix, hostPart] @ (if pathSlug \<noteq> [] then [pathSlug] else [])
           in Inr (path_join [outputDir, join_with ''-'' nameParts @ ''.mp4''])))"

subsection \<open>The file system of the platform\<close>

text \<open>
  The three calls the code makes on the file system (\<^verbatim>\<open>existsSync\<close>,
  \<^verbatim>\<open>readFile\<close> with \<^verbatim>\<open>'utf-8'\<close>, \<^verbatim>\<open>mkdirSync\<close> with
  \<^verbatim>\<open>recursive: true\<close>) are fields of a record that the functions take as a
  parameter. Reading and creating may throw.
\<close>

record fsys =
  existsSync :: "string \<Rightarrow> bool"
  readFile :: "string \<Rightarrow> error + string"
  mkdirSync :: "string \<Rightarrow> error + unit"

subsection \<open>readUrlFile\<close>

definition readUrlFile :: "fsys \<Rightarrow> string \<Rightarrow> error + string list" where
  "readUrlFile fs filePath =
     (if \<not> existsSync fs filePath then Inl (Error (''URL file not found: '' @ filePath))
      else
        (case readFile fs filePath of
           Inl e \<Rightarrow> Inl e
         | Inr content \<Rightarrow>
             (let urls = filter (\<lambda>line. length line > 0 \<and> \<not> startsWith line ''#'')
                           (map trim (split_lines content))
              in if length urls = 0 then Inl (Error (''No URLs found in file: '' @ filePath))
                 else Inr urls)))"

subsection \<open>ensureOutputDir\<close>

definition ensureOutputDir :: "fsys \<Rightarrow> string \<Rightarrow> error + unit" where
  "ensureOutputDir fs dir = (if \<not> existsSync fs dir then mkdirSync fs dir else Inr ())"

subsection \<open>runSequential\<close>

text \<open>
  The injected recording function takes the job's context object. It returns a result
  object (\<open>Inr\<close>) or throws, which for an asynchronous function means that its promise
  is rejected (\<open>Inl\<close>). It is a function of the context it is given; the statements
  below hold for every such function. An object spread \<^verbatim>\<open>{a, b, ...r}\<close> is the map \<open>[a, b] ++ r\<close>:
  a key of \<open>r\<close> replaces the same key written before it.
\<close>

type_synonym recorder = "jsobj \<Rightarrow> error + jsobj"

text \<open>The object literals of the loop body: the context passed to the recording function
  and the record stored for a job, \<^verbatim>\<open>{ url, outputPath, ...result }\<close>.\<close>

definition sequential_context :: "string \<Rightarrow> string \<Rightarrow> string \<Rightarrow> nat \<Rightarrow> jsobj \<Rightarrow> jsobj" where
  "sequential_context u outputPath jobLabel i sharedArgs =
     [''url'' \<mapsto> JStr u,
      ''outputPath'' \<mapsto> JStr outputPath,
      ''jobLabel'' \<mapsto> JStr jobLabel,
      ''jobIndex'' \<mapsto> JNum (int i),
      ''parallelMode'' \<mapsto> JBool False] ++ sharedArgs"

definition job_result :: "string \<Rightarrow> string \<Rightarrow> jsobj \<Rightarrow> jsobj" where
  "job_result u outputPath result =
     [''url'' \<mapsto> JStr u, ''outputPath'' \<mapsto> JStr outputPath] ++ result"

function runSequential_loop ::
  "url_parser \<Rightarrow> string list \<Rightarrow> string \<Rightarrow> recorder \<Rightarrow> jsobj \<Rightarrow> nat \<Rightarrow> jsarray
     \<Rightarrow> error + jsarray" where
  "runSequential_loop new_URL urls outputDir recordFn sharedArgs i results =
     (if i < length urls then
        (let u = urls ! i
         in case generateOutputPath new_URL u (int i) outputDir of
              Inl e \<Rightarrow> Inl e
            | Inr outputPath \<Rightarrow>
                (let jobLabel = ''['' @ String (int i + 1) @ ''/''
                                  @ String (int (length urls)) @ '']''
                 in case recordFn (sequential_context u outputPath jobLabel i sharedArgs) of
                      Inl e \<Rightarrow> Inl e
                    | Inr result \<Rightarrow>
                        runSequential_loop new_URL urls outputDir recordFn sharedArgs (i + 1)
                          (results @ [Some (job_result u outputPath result)])))
      else Inr results)"
  by pat_completeness auto
termination
  by (relation "measure (\<lambda>(new_URL, urls, outputDir, recordFn, sharedArgs, i, results).
                  length urls - i)") auto

declare runSequential_loop.simps [simp del]

definition runSequential ::
  "fsys \<Rightarrow> url_parser \<Rightarrow> string list \<Rightarrow> string \<Rightarrow> recorder \<Rightarrow> jsobj \<Rightarrow> error + jsarray" where
  "runSequential fs new_URL urls outputDir recordFn sharedArgs =
     (case ensureOutputDir fs outputDir of
        Inl e \<Rightarrow> Inl e
      | Inr _ \<Rightarrow> runSequential_loop new_URL urls outputDir recordFn sharedArgs 0 [])"

subsection \<open>runParallel\<close>

text \<open>
  JavaScript runs one piece of code at a time: a worker runs without interruption from
  one \<^verbatim>\<open>await\<close> to the next, and the workers interleave only at the
  \<^verbatim>\<open>await\<close> of the recording. A worker is therefore in one of three states: suspended
  at the \<^verbatim>\<open>await\<close>, holding its local variables and the promise it waits for; returned;
  or ended by an exception. The promise is the outcome the recording will settle with.
\<close>

datatype worker_state =
    Awaiting (w_url: string) (w_index: nat) (w_outputPath: string) (w_context: jsobj)
             (w_promise: "error + jsobj")
  | Finished
  | Rejected error

text \<open>
  The variables the workers share: the cursor, the array of results, and the array
  \<^verbatim>\<open>workers\<close>, here the state of every worker launched so far, by worker id. The
  field \<open>writes\<close> is a log of the assignments \<^verbatim>\<open>results[index] = ...\<close> as pairs of
  worker id and index; the code does not read it.
\<close>

record pool =
  nextIndex :: nat
  results :: jsarray
  workers :: "worker_state list"
  writes :: "(nat \<times> nat) list"

text \<open>\<^verbatim>\<open>urls.map((url, i) => ({ url, index: i }))\<close>.\<close>

definition job_queue :: "string list \<Rightarrow> (string \<times> nat) list" where
  "job_queue urls = zip urls [0..<length urls]"

text \<open>\<^verbatim>\<open>a[i] = v\<close>: an index past the end extends the array with holes.\<close>

definition array_set :: "jsarray \<Rightarrow> nat \<Rightarrow> jsobj \<Rightarrow> jsarray" where
  "array_set a i v =
     (if i < length a then a[i := Some v]
      else a @ replicate (i - length a) None @ [Some v])"

text \<open>The context a worker passes to the recording function.\<close>

definition parallel_context ::
  "string \<Rightarrow> string \<Rightarrow> string \<Rightarrow> nat \<Rightarrow> nat \<Rightarrow> jsobj \<Rightarrow> jsobj" where
  "parallel_context u outputPath jobLabel index workerId sharedArgs =
     [''url'' \<mapsto> JStr u,
      ''outputPath'' \<mapsto> JStr outputPath,
      ''jobLabel'' \<mapsto> JStr jobLabel,
      ''jobIndex'' \<mapsto> JNum (int index),
      ''parallelMode'' \<mapsto> JBool True,
      ''displayStartNumber'' \<mapsto> JNum (99 + int workerId * 10),
      ''sinkName'' \<mapsto> JStr (''recording_sink_'' @ String (int workerId))] ++ sharedArgs"

text \<open>
  A worker at the head of its \<^verbatim>\<open>while\<close> loop: it claims the next job, calls the
  recording function and suspends, or it returns when the queue is used up.
\<close>

definition worker_loop ::
  "url_parser \<Rightarrow> string list \<Rightarrow> string \<Rightarrow> recorder \<Rightarrow> jsobj \<Rightarrow> nat \<Rightarrow> pool
     \<Rightarrow> worker_state \<times> pool" where
  "worker_loop new_URL urls outputDir recordFn sharedArgs workerId s =
     (let queue = job_queue urls
      in if nextIndex s < length queue then
           (let jobIdx = nextIndex s;
                s' = s\<lparr>nextIndex := nextIndex s + 1\<rparr>;
                (u, index) = queue ! jobIdx
            in case generateOutputPath new_URL u (int index) outputDir of
                 Inl e \<Rightarrow> (Rejected e, s')
               | Inr outputPath \<Rightarrow>
                   (let jobLabel = ''[W'' @ String (int workerId) @ ''|''
                                     @ String (int index + 1) @ ''/''
                                     @ String (int (length urls)) @ '']'';
                        context = parallel_context u outputPath jobLabel index workerId
                                    sharedArgs
                    in (Awaiting u index outputPath context (recordFn context), s')))
         else (Finished, s))"

text \<open>
  The promise a suspended worker waits for settles: a rejection ends the worker, a result
  is stored at the job's index and the worker goes round its loop again.
\<close>

definition worker_resume ::
  "url_parser \<Rightarrow> string list \<Rightarrow> string \<Rightarrow> recorder \<Rightarrow> jsobj \<Rightarrow> nat \<Rightarrow> pool \<Rightarrow> pool" where
  "worker_resume new_URL urls outputDir recordFn sharedArgs workerId s =
     (case workers s ! workerId of
        Awaiting u index outputPath context promise \<Rightarrow>
          (case promise of
             Inl e \<Rightarrow> s\<lparr>workers := (workers s)[workerId := Rejected e]\<rparr>
           | Inr result \<Rightarrow>
               (let s1 = s\<lparr>results := array_set (results s) index
                                         (job_result u outputPath result),
                            writes := writes s @ [(workerId, index)]\<rparr>;
                    (st, s2) = worker_loop new_URL urls outputDir recordFn sharedArgs workerId s1
                in s2\<lparr>workers := (workers s2)[workerId := st]\<rparr>))
      | _ \<Rightarrow> s)"

text \<open>\<^verbatim>\<open>workers.push(worker(i))\<close>: the call runs the new worker up to its first
  \<^verbatim>\<open>await\<close>.\<close>

definition launch_worker ::
  "url_parser \<Rightarrow> string list \<Rightarrow> string \<Rightarrow> recorder \<Rightarrow> jsobj \<Rightarrow> nat \<Rightarrow> pool \<Rightarrow> pool" where
  "launch_worker new_URL urls outputDir recordFn sharedArgs i s =
     (let (st, s') = worker_loop new_URL urls outputDir recordFn sharedArgs i s
      in s'\<lparr>workers := workers s' @ [st]\<rparr>)"

function launch_loop ::
  "url_parser \<Rightarrow> string list \<Rightarrow> string \<Rightarrow> recorder \<Rightarrow> jsobj \<Rightarrow> int \<Rightarrow> nat \<Rightarrow> pool \<Rightarrow> pool" where
  "launch_loop new_URL urls outputDir recordFn sharedArgs concurrency i s =
     (if int i < min concurrency (int (length urls)) then
        launch_loop new_URL urls outputDir recordFn sharedArgs concurrency (i + 1)
          (launch_worker new_URL urls outputDir recordFn sharedArgs i s)
      else s)"
  by pat_completeness auto
termination
  by (relation "measure (\<lambda>(new_URL, urls, outputDir, recordFn, sharedArgs, concurrency, i, s).
                  nat (min concurrency (int (length urls))) - i)") auto

declare launch_loop.simps [simp del]

text \<open>The ids of the workers that are suspended, in increasing order.\<close>

definition is_awaiting :: "worker_state \<Rightarrow> bool" where
  "is_awaiting st = (case st of Awaiting _ _ _ _ _ \<Rightarrow> True | _ \<Rightarrow> False)"

definition awaiting :: "pool \<Rightarrow> nat list" where
  "awaiting s = filter (\<lambda>w. is_awaiting (workers s ! w)) [0..<length (workers s)]"

text \<open>The exception of a worker that was ended by one, if there is such a worker.\<close>

fun rejection :: "worker_state list \<Rightarrow> error option" where
  "rejection [] = None"
| "rejection (Rejected e # ws) = Some e"
| "rejection (_ # ws) = rejection ws"

text \<open>
  The event loop, driven by a schedule that fixes the order in which the pending
  recordings settle: with \<open>m\<close> workers suspended, the entry \<open>k\<close> settles the promise of
  the \<open>(k mod m)\<close>-th of them. Every order of completion is the run of some schedule.
  The loop stops at the first rejection, which is when \<^verbatim>\<open>Promise.all\<close> rejects and
  the caller gets the exception, and when no worker is suspended any more.
\<close>

fun event_loop ::
  "url_parser \<Rightarrow> string list \<Rightarrow> string \<Rightarrow> recorder \<Rightarrow> jsobj \<Rightarrow> nat list \<Rightarrow> pool \<Rightarrow> pool" where
  "event_loop new_URL urls outputDir recordFn sharedArgs [] s = s"
| "event_loop new_URL urls outputDir recordFn sharedArgs (k # ks) s =
     (if rejection (workers s) \<noteq> None \<or> awaiting s = [] then s
      else event_loop new_URL urls outputDir recordFn sharedArgs ks
             (worker_resume new_URL urls outputDir recordFn sharedArgs
                (awaiting s ! (k mod length (awaiting s))) s))"

text \<open>
  \<^verbatim>\<open>await Promise.all(workers); return results\<close>: the exception of a rejected worker,
  the array when every worker has returned, and \<open>None\<close> while some worker is still
  suspended, that is, while the call has not returned.
\<close>

definition promise_all :: "pool \<Rightarrow> (error + jsarray) option" where
  "promise_all s =
     (case rejection (workers s) of
        Some e \<Rightarrow> Some (Inl e)
      | None \<Rightarrow> if awaiting s = [] then Some (Inr (results s)) else None)"

text \<open>The state of the pool when the schedule has been played, and what the call has
  returned by then. An absent \<open>concurrency\<close> argument takes the default 2.\<close>

definition runParallel_pool ::
  "url_parser \<Rightarrow> string list \<Rightarrow> string \<Rightarrow> recorder \<Rightarrow> jsobj \<Rightarrow> int option \<Rightarrow> nat list \<Rightarrow> pool" where
  "runParallel_pool new_URL urls outputDir recordFn sharedArgs concurrency schedule =
     (let c = (case concurrency of None \<Rightarrow> 2 | Some c \<Rightarrow> c);
          s0 = \<lparr>nextIndex = 0, results = replicate (length urls) None,
                workers = [], writes = []\<rparr>
      in event_loop new_URL urls outputDir recordFn sharedArgs schedule
           (launch_loop new_URL urls outputDir recordFn sharedArgs c 0 s0))"

definition runParallel ::
  "fsys \<Rightarrow> url_parser \<Rightarrow> string list \<Rightarrow> string \<Rightarrow> recorder \<Rightarrow> jsobj \<Rightarrow> int option \<Rightarrow> nat list
     \<Rightarrow> (error + jsarray) option" where
  "runParallel fs new_URL urls outputDir recordFn sharedArgs concurrency schedule =
     (case ensureOutputDir fs outputDir of
        Inl e \<Rightarrow> Some (Inl e)
      | Inr _ \<Rightarrow>
          promise_all
            (runParallel_pool new_URL urls outputDir recordFn sharedArgs concurrency schedule))"

subsection \<open>printBatchSummary\<close>

text \<open>Reading a property in a condition (\<^verbatim>\<open>if (r.p)\<close>) and in a template
  (\<^verbatim>\<open>${r.p}\<close>); a missing property reads as \<^verbatim>\<open>undefined\<close>.\<close>

definition truthy :: "jsval option \<Rightarrow> bool" where
  "truthy v =
     (case v of
        None \<Rightarrow> False
      | Some JUndefined \<Rightarrow> False
      | Some (JBool b) \<Rightarrow> b
      | Some (JNum n) \<Rightarrow> n \<noteq> 0
      | Some (JStr s) \<Rightarrow> s \<noteq> [])"

definition template :: "jsval option \<Rightarrow> string" where
  "template v =
     (case v of
        None \<Rightarrow> ''undefined''
      | Some JUndefined \<Rightarrow> ''undefined''
      | Some (JBool b) \<Rightarrow> (if b then ''true'' else ''false'')
      | Some (JNum n) \<Rightarrow> String n
      | Some (JStr s) \<Rightarrow> s)"

text \<open>The lines logged so far, the two counters, and the exception that ended the loop,
  if one did.\<close>

record summary =
  logged :: "string list"
  successCount :: nat
  failCount :: nat
  thrown :: "error option"

text \<open>The \<^verbatim>\<open>for ... of\<close> loop. A hole is read as \<^verbatim>\<open>undefined\<close>, and reading
  \<^verbatim>\<open>success\<close> of it throws a TypeError.\<close>

fun summary_loop :: "jsarray \<Rightarrow> summary \<Rightarrow> summary" where
  "summary_loop [] acc = acc"
| "summary_loop (None # rest) acc =
     acc\<lparr>thrown := Some (Error ''TypeError: Cannot read properties of undefined'')\<rparr>"
| "summary_loop (Some result # rest) acc =
     (let status = (if truthy (result ''success'') then ''OK'' else ''FAIL'');
          detail = (if truthy (result ''success'') then template (result ''outputPath'')
                    else template (result ''error''));
          acc1 = acc\<lparr>logged := logged acc
                         @ [''  ['' @ status @ ''] '' @ template (result ''url''),
                            ''         '' @ detail]\<rparr>
      in if truthy (result ''success'')
         then summary_loop rest (acc1\<lparr>successCount := successCount acc1 + 1\<rparr>)
         else summary_loop rest (acc1\<lparr>failCount := failCount acc1 + 1\<rparr>))"

definition printBatchSummary :: "jsarray \<Rightarrow> summary" where
  "printBatchSummary rs =
     (let acc = summary_loop rs
                  \<lparr>logged = [replicate 70 CHR ''='', ''Batch Recording Summary'',
                             replicate 70 CHR ''=''],
                   successCount = 0, failCount = 0, thrown = None\<rparr>
      in if thrown acc \<noteq> None then acc
         else acc\<lparr>logged := logged acc
                     @ [replicate 70 CHR ''-'',
                        ''Total: '' @ String (int (length rs))
                          @ '' | Success: '' @ String (int (successCount acc))
                          @ '' | Failed: '' @ String (int (failCount acc)),
                        replicate 70 CHR ''='']\<rparr>)"

section \<open>Notions used in the statements\<close>

subsection \<open>Decimal numerals\<close>

text \<open>The number that a string of decimal digits denotes, and the digits themselves.\<close>

definition decimal_value :: "string \<Rightarrow> nat" where
  "decimal_value s = foldl (\<lambda>a c. 10 * a + (of_char c - 48)) 0 s"

definition is_digit :: "char \<Rightarrow> bool" where
  "is_digit c = (48 \<le> (of_char c :: nat) \<and> (of_char c :: nat) \<le> 57)"

subsection \<open>The jobs of a batch\<close>

text \<open>The output path of job \<open>i\<close>; \<open>generateOutputPath\<close> returns one for every input
  (lemma \<open>generateOutputPath_job_path\<close>).\<close>

definition job_path :: "url_parser \<Rightarrow> string list \<Rightarrow> string \<Rightarrow> nat \<Rightarrow> string" where
  "job_path new_URL urls outputDir i =
     (case generateOutputPath new_URL (urls ! i) (int i) outputDir of
        Inr p \<Rightarrow> p | Inl _ \<Rightarrow> [])"

text \<open>The context object that \<open>runSequential\<close> passes to the recording function for job
  \<open>i\<close>, and the one that worker \<open>workerId\<close> of \<open>runParallel\<close> passes for it.\<close>

definition sequential_job :: "url_parser \<Rightarrow> string list \<Rightarrow> string \<Rightarrow> jsobj \<Rightarrow> nat \<Rightarrow> jsobj" where
  "sequential_job new_URL urls outputDir sharedArgs i =
     sequential_context (urls ! i) (job_path new_URL urls outputDir i)
       (''['' @ String (int i + 1) @ ''/'' @ String (int (length urls)) @ '']'') i sharedArgs"

definition parallel_job ::
  "url_parser \<Rightarrow> string list \<Rightarrow> string \<Rightarrow> jsobj \<Rightarrow> nat \<Rightarrow> nat \<Rightarrow> jsobj" where
  "parallel_job new_URL urls outputDir sharedArgs workerId i =
     parallel_context (urls ! i) (job_path new_URL urls outputDir i)
       (''[W'' @ String (int workerId) @ ''|'' @ String (int i + 1) @ ''/''
          @ String (int (length urls)) @ '']'') i workerId sharedArgs"

text \<open>Worker \<open>workerId\<close> suspended on job \<open>i\<close>.\<close>

definition claimed ::
  "url_parser \<Rightarrow> string list \<Rightarrow> string \<Rightarrow> recorder \<Rightarrow> jsobj \<Rightarrow> nat \<Rightarrow> nat \<Rightarrow> worker_state" where
  "claimed new_URL urls outputDir recordFn sharedArgs workerId i =
     Awaiting (urls ! i) i (job_path new_URL urls outputDir i)
       (parallel_job new_URL urls outputDir sharedArgs workerId i)
       (recordFn (parallel_job new_URL urls outputDir sharedArgs workerId i))"

text \<open>The concurrency in force: the argument, or the default.\<close>

definition effective_concurrency :: "int option \<Rightarrow> int" where
  "effective_concurrency concurrency = (case concurrency of None \<Rightarrow> 2 | Some c \<Rightarrow> c)"

subsection \<open>Invariants of the worker pool\<close>

text \<open>What holds of the shared variables as long as no worker has been ended by an exception:
  the cursor is within the queue; the log of writes names every index at most once, and
  only indices below the cursor; a suspended worker holds a job below the cursor that has
  not been written and that no other worker holds; a worker has returned only when the
  cursor has reached the end of the queue; every index below the cursor is written or held
  by a suspended worker; and a slot is a hole until its index is written, and then holds
  the record made from the result of that job's recording.\<close>

definition pool_inv ::
  "url_parser \<Rightarrow> string list \<Rightarrow> string \<Rightarrow> recorder \<Rightarrow> jsobj \<Rightarrow> pool \<Rightarrow> bool" where
  "pool_inv new_URL urls outputDir recordFn sharedArgs s \<longleftrightarrow>
     length (results s) = length urls \<and>
     nextIndex s \<le> length urls \<and>
     distinct (map snd (writes s)) \<and>
     (\<forall>w i. (w, i) \<in> set (writes s) \<longrightarrow> w < length (workers s) \<and> i < nextIndex s) \<and>
     (\<forall>w < length (workers s). \<forall>e. workers s ! w \<noteq> Rejected e) \<and>
     ((\<exists>w < length (workers s). workers s ! w = Finished) \<longrightarrow> nextIndex s = length urls) \<and>
     (\<forall>w < length (workers s). is_awaiting (workers s ! w) \<longrightarrow>
        w_index (workers s ! w) < nextIndex s \<and>
        w_index (workers s ! w) \<notin> snd ` set (writes s) \<and>
        workers s ! w
          = claimed new_URL urls outputDir recordFn sharedArgs w (w_index (workers s ! w))) \<and>
     (\<forall>w < length (workers s). \<forall>w' < length (workers s).
        is_awaiting (workers s ! w) \<and> is_awaiting (workers s ! w') \<and>
        w_index (workers s ! w) = w_index (workers s ! w') \<longrightarrow> w = w') \<and>
     (\<forall>i < nextIndex s. i \<in> snd ` set (writes s) \<or>
        (\<exists>w < length (workers s). is_awaiting (workers s ! w) \<and> w_index (workers s ! w) = i)) \<and>
     (\<forall>i < length urls. i \<notin> snd ` set (writes s) \<longrightarrow> results s ! i = None) \<and>
     (\<forall>w i. (w, i) \<in> set (writes s) \<longrightarrow>
        (\<exists>res. recordFn (parallel_job new_URL urls outputDir sharedArgs w i) = Inr res \<and>
               results s ! i
                 = Some (job_result (urls ! i) (job_path new_URL urls outputDir i) res)))"

text \<open>Any sequence of settlements, named by worker id. Unlike \<open>event_loop\<close> it does not stop
  at a rejection: the workers that are still suspended then go on in the background.\<close>

fun settle_all ::
  "url_parser \<Rightarrow> string list \<Rightarrow> string \<Rightarrow> recorder \<Rightarrow> jsobj \<Rightarrow> nat list \<Rightarrow> pool \<Rightarrow> pool" where
  "settle_all new_URL urls outputDir recordFn sharedArgs [] s = s"
| "settle_all new_URL urls outputDir recordFn sharedArgs (w # ws) s =
     settle_all new_URL urls outputDir recordFn sharedArgs ws
       (if w < length (workers s) \<and> is_awaiting (workers s ! w)
        then worker_resume new_URL urls outputDir recordFn sharedArgs w s else s)"

text \<open>A suspended worker holds the context that was built from its own id.\<close>

definition context_inv ::
  "url_parser \<Rightarrow> string list \<Rightarrow> string \<Rightarrow> recorder \<Rightarrow> jsobj \<Rightarrow> pool \<Rightarrow> bool" where
  "context_inv new_URL urls outputDir recordFn sharedArgs s \<longleftrightarrow>
     (\<forall>w < length (workers s). is_awaiting (workers s ! w) \<longrightarrow>
        workers s ! w
          = claimed new_URL urls outputDir recordFn sharedArgs w (w_index (workers s ! w)))"

subsection \<open>The URL list and the report in the words of the specification\<close>

text \<open>The lines of a file that are kept: those that are not empty after trimming and whose
  first character that is not white space is not \<open>#\<close>; each is returned trimmed.\<close>

definition first_non_space :: "string \<Rightarrow> char option" where
  "first_non_space l = (case dropWhile is_space l of [] \<Rightarrow> None | c # _ \<Rightarrow> Some c)"

definition url_lines :: "string \<Rightarrow> string list" where
  "url_lines content =
     map trim (filter (\<lambda>l. trim l \<noteq> [] \<and> first_non_space l \<noteq> Some CHR ''#'')
                 (split_lines content))"

text \<open>A job counts as a success when its \<open>success\<close> field is \<open>true\<close>; the report has two
  lines for it, the first tagged OK or FAIL.\<close>

definition job_succeeded :: "jsobj option \<Rightarrow> bool" where
  "job_succeeded r = (case r of Some obj \<Rightarrow> obj ''success'' = Some (JBool True) | None \<Rightarrow> False)"

definition job_lines :: "jsobj option \<Rightarrow> string list" where
  "job_lines r =
     (case r of
        None \<Rightarrow> []
      | Some obj \<Rightarrow>
          [''  ['' @ (if job_succeeded r then ''OK'' else ''FAIL'') @ ''] '' @ template (obj ''url''),
           ''         '' @ (if job_succeeded r then template (obj ''outputPath'')
                            else template (obj ''error''))])"

subsection \<open>Concrete inputs\<close>

text \<open>A parser that accepts one URL, a file system with a URL file, an empty URL file and the
  output directory, a batch of five URLs, and four recording functions: one that always
  succeeds, one that returns a failure record for the job with index 2, one that throws
  for the job with index 1, and one whose result carries a \<open>url\<close> field of its own.\<close>

definition example_parser :: url_parser where
  "example_parser u =
     (if u = ''https://www.Example.com/Foo/Bar/''
      then Inr \<lparr>hostname = ''www.example.com'', pathname = ''/Foo/Bar/''\<rparr>
      else Inl (Error ''TypeError: Invalid URL''))"

definition example_fs :: fsys where
  "example_fs =
     \<lparr>existsSync = (\<lambda>p. p = ''urls.txt'' \<or> p = ''empty.txt'' \<or> p = ''/out''),
      readFile = (\<lambda>p. if p = ''urls.txt''
                       then Inr ''# comment\<newline>\<newline>https://example.com/page\<newline>not a url''
                       else if p = ''empty.txt'' then Inr ''# nothing here\<newline>''
                       else Inl (Error ''EISDIR: illegal operation on a directory'')),
      mkdirSync = (\<lambda>p. Inr ())\<rparr>"

definition example_urls :: "string list" where
  "example_urls = [''https://www.Example.com/Foo/Bar/'', ''b'', ''c'', ''d'', ''not a valid url!!'']"

definition record_ok :: recorder where
  "record_ok context = Inr [''success'' \<mapsto> JBool True]"

definition record_failing :: recorder where
  "record_failing context =
     (if context ''jobIndex'' = Some (JNum 2)
      then Inr [''success'' \<mapsto> JBool False, ''error'' \<mapsto> JStr ''timeout'']
      else Inr [''success'' \<mapsto> JBool True])"

definition record_throwing :: recorder where
  "record_throwing context =
     (if context ''jobIndex'' = Some (JNum 1) then Inl (Error ''crash'')
      else Inr [''success'' \<mapsto> JBool True])"

definition record_renaming :: recorder where
  "record_renaming context = Inr [''success'' \<mapsto> JBool True, ''url'' \<mapsto> JStr ''b'']"

definition example_results :: jsarray where
  "example_results =
     [Some [''url'' \<mapsto> JStr ''a'', ''outputPath'' \<mapsto> JStr ''/out/001-a.mp4'',
            ''success'' \<mapsto> JBool True],
      Some [''url'' \<mapsto> JStr ''b'', ''outputPath'' \<mapsto> JStr ''/out/002-b.mp4'',
            ''success'' \<mapsto> JBool False, ''error'' \<mapsto> JStr ''timeout'']]"

section \<open>Lemmas\<close>

subsection \<open>Decimal numerals and the index prefix\<close>

lemma of_char_digit_char: "d < 10 \<Longrightarrow> (of_char (digit_char d) :: nat) = 48 + d"
  by (simp add: digit_char_def)

lemma decimal_value_snoc: "decimal_value (s @ [c]) = 10 * decimal_value s + (of_char c - 48)"
  by (simp add: decimal_value_def)

lemma decimal_value_string_of_nat: "decimal_value (string_of_nat n) = n"
proof (induction n rule: string_of_nat.induct)
  case (1 n)
  show ?case
  proof (cases "n < 10")
    case True
    then show ?thesis
      by (subst string_of_nat.simps) (simp add: decimal_value_def of_char_digit_char)
  next
    case False
    then have "decimal_value (string_of_nat (n div 10)) = n div 10"
      using 1 by simp
    with False show ?thesis
      by (subst string_of_nat.simps) (simp add: decimal_value_snoc of_char_digit_char)
  qed
qed

lemma decimal_value_zeros: "decimal_value (replicate k (CHR ''0'') @ s) = decimal_value s"
proof -
  have "foldl (\<lambda>a c. 10 * a + (of_char c - 48)) 0 (replicate k (CHR ''0'')) = (0::nat)"
    by (induction k) simp_all
  then show ?thesis by (simp add: decimal_value_def)
qed

lemma string_of_nat_digits: "\<forall>c \<in> set (string_of_nat n). is_digit c"
proof (induction n rule: string_of_nat.induct)
  case (1 n)
  show ?case
  proof (cases "n < 10")
    case True
    then show ?thesis
      by (subst string_of_nat.simps) (simp add: is_digit_def of_char_digit_char)
  next
    case False
    with 1 show ?thesis
      by (subst string_of_nat.simps) (simp add: is_digit_def of_char_digit_char)
  qed
qed

lemma string_of_nat_length_pos: "0 < length (string_of_nat n)"
  by (subst string_of_nat.simps) simp

lemma string_of_nat_length: "length (string_of_nat n) \<le> k \<longleftrightarrow> n < 10 ^ k" if "0 < k"
  using that
proof (induction n arbitrary: k rule: string_of_nat.induct)
  case (1 n)
  show ?case
  proof (cases "n < 10")
    case True
    have "(10::nat) ^ 1 \<le> 10 ^ k" using 1(2) by (intro power_increasing) simp_all
    with True 1(2) show ?thesis
      by (subst string_of_nat.simps) (simp add: Suc_le_eq)
  next
    case False
    show ?thesis
    proof (cases k)
      case 0
      with 1(2) show ?thesis by simp
    next
      case (Suc j)
      show ?thesis
      proof (cases "j = 0")
        case True
        with Suc False show ?thesis
          using string_of_nat_length_pos [of "n div 10"]
          by (subst string_of_nat.simps) simp
      next
        case jpos: False
        then have "length (string_of_nat (n div 10)) \<le> j \<longleftrightarrow> n div 10 < 10 ^ j"
          using 1(1) [OF False, of j] by simp
        moreover have "n div 10 < 10 ^ j \<longleftrightarrow> n < 10 ^ Suc j"
          by (simp add: less_mult_imp_div_less div_less_iff_less_mult mult.commute)
        ultimately show ?thesis using False Suc
          by (subst string_of_nat.simps) simp
      qed
    qed
  qed
qed

lemma String_nonneg: "0 \<le> n \<Longrightarrow> String n = string_of_nat (nat n)"
  by (simp add: String_def)

lemma index_prefix_value: "0 \<le> i \<Longrightarrow> decimal_value (index_prefix i) = nat i + 1"
  by (simp add: index_prefix_def padStart_def String_nonneg decimal_value_zeros
      decimal_value_string_of_nat nat_add_distrib)

lemma index_prefix_inj: "0 \<le> i \<Longrightarrow> 0 \<le> j \<Longrightarrow> index_prefix i = index_prefix j \<Longrightarrow> i = j"
  using index_prefix_value [of i] index_prefix_value [of j] by simp

lemma index_prefix_length: "0 \<le> i \<Longrightarrow> length (index_prefix i) = max 3 (length (String (i + 1)))"
  by (simp add: index_prefix_def padStart_def)

lemma index_prefix_length3: "0 \<le> i \<Longrightarrow> length (index_prefix i) = 3 \<longleftrightarrow> i < 999"
proof -
  assume i: "0 \<le> i"
  have "length (string_of_nat (nat (i + 1))) \<le> 3 \<longleftrightarrow> nat (i + 1) < 10 ^ 3"
    by (rule string_of_nat_length) simp
  then show ?thesis using i
    by (auto simp: index_prefix_def padStart_def String_nonneg)
qed

subsection \<open>The character class of the slug\<close>

lemma codes_lower: "map of_char ''abcdefghijklmnopqrstuvwxyz'' = [97..<123::nat]"
  by code_simp

lemma codes_upper: "map of_char ''ABCDEFGHIJKLMNOPQRSTUVWXYZ'' = [65..<91::nat]"
  by code_simp

lemma codes_digit: "map of_char ''0123456789'' = [48..<58::nat]"
  by code_simp

lemma char_in_range:
  assumes "map of_char s = [lo..<hi::nat]" "lo \<le> of_char c" "(of_char c :: nat) < hi"
  shows "c \<in> set s"
proof -
  have "(of_char c :: nat) \<in> set (map of_char s)" using assms by simp
  then obtain d where "d \<in> set s" "(of_char c :: nat) = of_char d" by auto
  then show ?thesis by simp
qed

lemma char_range_in:
  assumes "map of_char s = [lo..<hi::nat]" "c \<in> set s"
  shows "lo \<le> of_char c \<and> (of_char c :: nat) < hi"
proof -
  have "(of_char c :: nat) \<in> set (map of_char s)" using assms(2) by simp
  then show ?thesis unfolding assms(1) by simp
qed

lemma is_alnum_iff: "is_alnum c \<longleftrightarrow> c \<in> set ''abcdefghijklmnopqrstuvwxyz'' \<or> c \<in> set ''ABCDEFGHIJKLMNOPQRSTUVWXYZ'' \<or> c \<in> set ''0123456789''"
proof
  assume "is_alnum c"
  then show "c \<in> set ''abcdefghijklmnopqrstuvwxyz'' \<or> c \<in> set ''ABCDEFGHIJKLMNOPQRSTUVWXYZ'' \<or> c \<in> set ''0123456789''"
    unfolding is_alnum_def Let_def
    using char_in_range [OF codes_lower, of c] char_in_range [OF codes_upper, of c]
      char_in_range [OF codes_digit, of c] by linarith
next
  assume "c \<in> set ''abcdefghijklmnopqrstuvwxyz'' \<or> c \<in> set ''ABCDEFGHIJKLMNOPQRSTUVWXYZ'' \<or> c \<in> set ''0123456789''"
  then show "is_alnum c"
    unfolding is_alnum_def Let_def
    using char_range_in [OF codes_lower, of c] char_range_in [OF codes_upper, of c]
      char_range_in [OF codes_digit, of c] by linarith
qed

subsection \<open>path.join keeps the file name\<close>

lemma split_slash_noslash: "CHR ''/'' \<notin> set f \<Longrightarrow> split_slash f = [f]"
  by (induction f) auto

lemma split_slash_nonempty: "split_slash s \<noteq> []"
  by (induction s) (auto split: list.splits)

lemma split_slash_append: "CHR ''/'' \<notin> set f \<Longrightarrow> split_slash (d @ CHR ''/'' # f) = split_slash d @ [f]"
proof (induction d)
  case Nil
  then show ?case by (simp add: split_slash_noslash)
next
  case (Cons c d)
  then show ?case using split_slash_nonempty [of d]
    by (cases "split_slash d") auto
qed

lemma normalizeSegments_last:
  "f \<noteq> [] \<Longrightarrow> f \<noteq> ''.'' \<Longrightarrow> f \<noteq> ''..'' \<Longrightarrow>
   normalizeSegments a acc (xs @ [f]) = normalizeSegments a acc xs @ [f]"
proof (induction xs arbitrary: acc)
  case Nil
  then show ?case by simp
next
  case (Cons x xs)
  then show ?case by (cases a) (simp_all split: list.split)
qed

lemma join_with_snoc:
  "join_with sep (ys @ [f]) = (if ys = [] then f else join_with sep ys @ sep @ f)"
  by (induction sep ys rule: join_with.induct) auto

lemma path_join_filename:
  assumes "CHR ''/'' \<notin> set f" "f \<noteq> []" "f \<noteq> ''.''" "f \<noteq> ''..''"
  shows "\<exists>pre. path_join [d, f] = pre @ f \<and> (pre = [] \<or> last pre = CHR ''/'')"
proof (cases "d = []")
  case True
  have "hd f \<noteq> CHR ''/''" "last f \<noteq> CHR ''/''"
    using assms(1,2) by (metis hd_in_set, metis last_in_set)
  then have "path_join [d, f] = f"
    using True assms
    by (simp add: path_join_def path_normalize_def split_slash_noslash Let_def)
  then show ?thesis by simp
next
  case False
  have lf: "last (d @ CHR ''/'' # f) \<noteq> CHR ''/''"
    using assms(1,2) by (metis last_appendR last_in_set list.distinct(1) last_ConsR)
  have hd: "hd (d @ CHR ''/'' # f) = hd d" using False by simp
  define ys where "ys = normalizeSegments (hd d \<noteq> CHR ''/'') [] (split_slash d)"
  have seg: "normalizeSegments (hd d \<noteq> CHR ''/'') [] (split_slash (d @ CHR ''/'' # f)) = ys @ [f]"
    using assms by (simp add: split_slash_append normalizeSegments_last ys_def)
  have j: "join_with ''/'' [d, f] = d @ CHR ''/'' # f" by simp
  have "path_join [d, f] = path_normalize (d @ CHR ''/'' # f)"
    using False assms(2) by (simp add: path_join_def)
  also have "\<dots> = (if hd d = CHR ''/'' then CHR ''/'' # join_with ''/'' (ys @ [f]) else join_with ''/'' (ys @ [f]))"
    unfolding path_normalize_def Let_def hd seg using lf assms(2) by (simp add: join_with_snoc)
  finally have eq: "path_join [d, f] = (if hd d = CHR ''/'' then CHR ''/'' # join_with ''/'' (ys @ [f]) else join_with ''/'' (ys @ [f]))" .
  show ?thesis
  proof (cases "ys = []")
    case True
    show ?thesis
    proof (cases "hd d = CHR ''/''")
      case True
      with \<open>ys = []\<close> eq have "path_join [d, f] = ''/'' @ f" by simp
      then show ?thesis by (intro exI [of _ "''/''"]) simp
    next
      case False
      with \<open>ys = []\<close> eq have "path_join [d, f] = [] @ f" by simp
      then show ?thesis by (intro exI [of _ "[]"]) simp
    qed
  next
    case False
    show ?thesis
    proof (cases "hd d = CHR ''/''")
      case True
      with False eq have "path_join [d, f] = (CHR ''/'' # join_with ''/'' ys @ ''/'') @ f"
        by (simp add: join_with_snoc)
      then show ?thesis by (intro exI [of _ "CHR ''/'' # join_with ''/'' ys @ ''/''"]) simp
    next
      case False
      with \<open>ys \<noteq> []\<close> eq have "path_join [d, f] = (join_with ''/'' ys @ ''/'') @ f"
        by (simp add: join_with_snoc)
      then show ?thesis by (intro exI [of _ "join_with ''/'' ys @ ''/''"]) simp
    qed
  qed
qed

subsection \<open>The steps of a worker\<close>

lemma generateOutputPath_Inr: "\<exists>p. generateOutputPath U u i d = Inr p"
  by (simp add: generateOutputPath_def Let_def split: sum.split)

lemma generateOutputPath_job_path:
  "generateOutputPath U (urls ! i) (int i) d = Inr (job_path U urls d i)"
  using generateOutputPath_Inr [of U "urls ! i" "int i" d] by (auto simp: job_path_def)

lemma job_queue_length [simp]: "length (job_queue urls) = length urls"
  by (simp add: job_queue_def)

lemma job_queue_nth [simp]: "i < length urls \<Longrightarrow> job_queue urls ! i = (urls ! i, i)"
  by (simp add: job_queue_def)

lemma worker_loop_claim:
  "nextIndex s < length urls \<Longrightarrow>
   worker_loop U urls d rf sa w s =
     (claimed U urls d rf sa w (nextIndex s), s\<lparr>nextIndex := nextIndex s + 1\<rparr>)"
  by (simp add: worker_loop_def Let_def generateOutputPath_job_path claimed_def parallel_job_def)

lemma worker_loop_done:
  "\<not> nextIndex s < length urls \<Longrightarrow> worker_loop U urls d rf sa w s = (Finished, s)"
  by (simp add: worker_loop_def)

lemma worker_resume_reject:
  "workers s ! w = Awaiting u i p c (Inl e) \<Longrightarrow>
   worker_resume U urls d rf sa w s = s\<lparr>workers := (workers s)[w := Rejected e]\<rparr>"
  by (simp add: worker_resume_def)

lemma worker_resume_claim:
  "workers s ! w = Awaiting u i p c (Inr res) \<Longrightarrow> i < length (results s) \<Longrightarrow>
   nextIndex s < length urls \<Longrightarrow>
   worker_resume U urls d rf sa w s =
     \<lparr>nextIndex = nextIndex s + 1,
      results = (results s)[i := Some (job_result u p res)],
      workers = (workers s)[w := claimed U urls d rf sa w (nextIndex s)],
      writes = writes s @ [(w, i)]\<rparr>"
  by (simp add: worker_resume_def worker_loop_claim array_set_def)

lemma worker_resume_finish:
  "workers s ! w = Awaiting u i p c (Inr res) \<Longrightarrow> i < length (results s) \<Longrightarrow>
   \<not> nextIndex s < length urls \<Longrightarrow>
   worker_resume U urls d rf sa w s =
     \<lparr>nextIndex = nextIndex s,
      results = (results s)[i := Some (job_result u p res)],
      workers = (workers s)[w := Finished],
      writes = writes s @ [(w, i)]\<rparr>"
  by (simp add: worker_resume_def worker_loop_done array_set_def)

lemma launch_loop_explicit:
  "nextIndex s = i \<Longrightarrow> i \<le> nat (min c (int (length urls))) \<Longrightarrow>
   launch_loop U urls d rf sa c i s =
     s\<lparr>nextIndex := nat (min c (int (length urls))),
       workers := workers s @ map (\<lambda>w. claimed U urls d rf sa w w) [i..<nat (min c (int (length urls)))]\<rparr>"
proof (induction U urls d rf sa c i s rule: launch_loop.induct)
  case (1 U urls d rf sa c i s)
  show ?case
  proof (cases "int i < min c (int (length urls))")
    case True
    then have lt: "i < length urls" "i < nat (min c (int (length urls)))" by auto
    have step: "launch_worker U urls d rf sa i s
          = s\<lparr>nextIndex := i + 1, workers := workers s @ [claimed U urls d rf sa i i]\<rparr>"
      using lt 1(2) by (simp add: launch_worker_def worker_loop_claim)
    have "launch_loop U urls d rf sa c i s
          = launch_loop U urls d rf sa c (i + 1) (launch_worker U urls d rf sa i s)"
      by (subst launch_loop.simps) (simp only: True if_True)
    also have "\<dots> = (launch_worker U urls d rf sa i s)\<lparr>nextIndex := nat (min c (int (length urls))),
       workers := workers (launch_worker U urls d rf sa i s) @ map (\<lambda>w. claimed U urls d rf sa w w) [i + 1..<nat (min c (int (length urls)))]\<rparr>"
      using 1(1) [OF True] lt step by simp
    also have "\<dots> = s\<lparr>nextIndex := nat (min c (int (length urls))),
       workers := workers s @ map (\<lambda>w. claimed U urls d rf sa w w) [i..<nat (min c (int (length urls)))]\<rparr>"
      using lt by (simp add: step upt_conv_Cons)
    finally show ?thesis .
  next
    case False
    then have i: "nat (min c (int (length urls))) = i" using 1(3) by auto
    have "launch_loop U urls d rf sa c i s = s"
      by (subst launch_loop.simps) (simp only: False if_False)
    then show ?thesis unfolding i using 1(2) by simp
  qed
qed

subsection \<open>The pool invariant is kept by a settlement\<close>

lemma is_awaiting_simps [simp]:
  "is_awaiting (Awaiting u i p c pr)" "\<not> is_awaiting Finished" "\<not> is_awaiting (Rejected e)"
  "is_awaiting (claimed U urls d rf sa w i)"
  by (simp_all add: is_awaiting_def claimed_def)

lemma w_index_claimed [simp]: "w_index (claimed U urls d rf sa w i) = i"
  by (simp add: claimed_def)

lemma claimed_not [simp]: "claimed U urls d rf sa w i \<noteq> Finished" "claimed U urls d rf sa w i \<noteq> Rejected e"
  by (simp_all add: claimed_def)

lemma pool_inv_resume:
  assumes inv: "pool_inv U urls d rf sa s"
    and w: "w < length (workers s)"
    and st: "workers s ! w = Awaiting u i p c (Inr res)"
  shows "pool_inv U urls d rf sa (worker_resume U urls d rf sa w s)"
    and "writes (worker_resume U urls d rf sa w s) = writes s @ [(w, i)]"
proof -
  let ?ws = "workers s" and ?n = "nextIndex s" and ?W = "snd ` set (writes s)"
  have aw: "is_awaiting (?ws ! w)" and wi: "w_index (?ws ! w) = i" using st by simp_all
  from inv have len: "length (results s) = length urls" and nle: "?n \<le> length urls"
    and dist: "distinct (map snd (writes s))"
    and wr: "\<And>w i. (w, i) \<in> set (writes s) \<Longrightarrow> w < length ?ws \<and> i < ?n"
    and norej: "\<And>w e. w < length ?ws \<Longrightarrow> ?ws ! w \<noteq> Rejected e"
    and fin: "(\<exists>w < length ?ws. ?ws ! w = Finished) \<Longrightarrow> ?n = length urls"
    and awt: "\<And>w. w < length ?ws \<Longrightarrow> is_awaiting (?ws ! w) \<Longrightarrow>
        w_index (?ws ! w) < ?n \<and> w_index (?ws ! w) \<notin> ?W \<and>
        ?ws ! w = claimed U urls d rf sa w (w_index (?ws ! w))"
    and inj: "\<And>w w'. w < length ?ws \<Longrightarrow> w' < length ?ws \<Longrightarrow> is_awaiting (?ws ! w)
        \<Longrightarrow> is_awaiting (?ws ! w') \<Longrightarrow> w_index (?ws ! w) = w_index (?ws ! w') \<Longrightarrow> w = w'"
    and cov: "\<And>i. i < ?n \<Longrightarrow> i \<in> ?W \<or>
        (\<exists>w < length ?ws. is_awaiting (?ws ! w) \<and> w_index (?ws ! w) = i)"
    and holes: "\<And>i. i < length urls \<Longrightarrow> i \<notin> ?W \<Longrightarrow> results s ! i = None"
    and vals: "\<And>w i. (w, i) \<in> set (writes s) \<Longrightarrow>
        (\<exists>res. rf (parallel_job U urls d sa w i) = Inr res \<and>
               results s ! i = Some (job_result (urls ! i) (job_path U urls d i) res))"
    unfolding pool_inv_def by simp_all
  have i_lt: "i < ?n" and i_new: "i \<notin> ?W"
    and cl: "?ws ! w = claimed U urls d rf sa w i"
    using awt [OF w aw] wi by simp_all
  have u: "u = urls ! i" and p: "p = job_path U urls d i"
    and pr: "rf (parallel_job U urls d sa w i) = Inr res"
    using cl st by (simp_all add: claimed_def)
  have i_len: "i < length (results s)" using i_lt nle len by simp
  define st' where "st' = (if ?n < length urls then claimed U urls d rf sa w ?n else Finished)"
  define n' where "n' = (if ?n < length urls then ?n + 1 else ?n)"
  define s' where "s' = worker_resume U urls d rf sa w s"
  have s': "nextIndex s' = n'" "results s' = (results s)[i := Some (job_result u p res)]"
    "workers s' = ?ws[w := st']" "writes s' = writes s @ [(w, i)]"
    unfolding s'_def st'_def n'_def
    using worker_resume_claim [OF st i_len, of urls U d rf sa]
      worker_resume_finish [OF st i_len, of urls U d rf sa]
    by (cases "?n < length urls"; simp)+
  have n'_ge: "?n \<le> n'" and n'_le: "n' \<le> length urls" using nle by (auto simp: n'_def)
  have nth': "\<And>v. v < length ?ws \<Longrightarrow> (?ws[w := st']) ! v = (if v = w then st' else ?ws ! v)"
    by (simp add: nth_list_update)
  have W': "snd ` set (writes s') = insert i ?W" by (simp add: s')
  have st'_aw: "is_awaiting st' \<Longrightarrow> ?n < length urls \<and> st' = claimed U urls d rf sa w ?n \<and> n' = ?n + 1"
    by (auto simp: st'_def n'_def split: if_splits)
  have n_notin: "?n \<notin> ?W" using wr by fastforce
  have c1: "length (results s') = length urls" using len by (simp add: s')
  have c2: "nextIndex s' \<le> length urls" using n'_le by (simp add: s')
  have c3: "distinct (map snd (writes s'))" using dist i_new by (simp add: s')
  have c4: "\<forall>v j. (v, j) \<in> set (writes s') \<longrightarrow> v < length (workers s') \<and> j < nextIndex s'"
    using wr w i_lt n'_ge by (fastforce simp: s')
  have c5: "\<forall>v < length (workers s'). \<forall>e. workers s' ! v \<noteq> Rejected e"
    using norej w by (auto simp: s' nth_list_update st'_def)
  have c6: "(\<exists>v < length (workers s'). workers s' ! v = Finished) \<longrightarrow> nextIndex s' = length urls"
  proof
    assume "\<exists>v < length (workers s'). workers s' ! v = Finished"
    then obtain v where v: "v < length ?ws" "(?ws[w := st']) ! v = Finished" by (auto simp: s')
    show "nextIndex s' = length urls"
    proof (cases "v = w")
      case True
      with v have "st' = Finished" by simp
      then have "\<not> ?n < length urls" by (auto simp: st'_def split: if_splits)
      then show ?thesis using nle by (simp add: s' n'_def)
    next
      case False
      with v have "?ws ! v = Finished" by simp
      then have "?n = length urls" using fin v(1) by blast
      then show ?thesis by (simp add: s' n'_def)
    qed
  qed
  have c7: "\<forall>v < length (workers s'). is_awaiting (workers s' ! v) \<longrightarrow>
        w_index (workers s' ! v) < nextIndex s' \<and>
        w_index (workers s' ! v) \<notin> snd ` set (writes s') \<and>
        workers s' ! v = claimed U urls d rf sa v (w_index (workers s' ! v))"
  proof (intro allI impI)
    fix v assume v: "v < length (workers s')" and a: "is_awaiting (workers s' ! v)"
    then have vl: "v < length ?ws" by (simp add: s')
    show "w_index (workers s' ! v) < nextIndex s' \<and>
        w_index (workers s' ! v) \<notin> snd ` set (writes s') \<and>
        workers s' ! v = claimed U urls d rf sa v (w_index (workers s' ! v))"
    proof (cases "v = w")
      case True
      then have eq: "workers s' ! v = st'" using vl by (simp add: s')
      with a have "?n < length urls" "st' = claimed U urls d rf sa w ?n" "n' = ?n + 1"
        using st'_aw by simp_all
      then show ?thesis using True eq i_lt n_notin by (simp add: s')
    next
      case False
      then have eq: "workers s' ! v = ?ws ! v" using vl by (simp add: s')
      with a have a0: "is_awaiting (?ws ! v)" by simp
      have "w_index (?ws ! v) \<noteq> i" using inj [OF vl w a0 aw] wi False by auto
      then show ?thesis using awt [OF vl a0] n'_ge eq by (simp add: s')
    qed
  qed
  have c8: "\<forall>v < length (workers s'). \<forall>v' < length (workers s').
        is_awaiting (workers s' ! v) \<and> is_awaiting (workers s' ! v') \<and>
        w_index (workers s' ! v) = w_index (workers s' ! v') \<longrightarrow> v = v'"
  proof (intro allI impI)
    fix v v' assume v: "v < length (workers s')" and v': "v' < length (workers s')"
      and h: "is_awaiting (workers s' ! v) \<and> is_awaiting (workers s' ! v') \<and>
        w_index (workers s' ! v) = w_index (workers s' ! v')"
    have vl: "v < length ?ws" "v' < length ?ws" using v v' by (simp_all add: s')
    have fresh: "\<And>x. x < length ?ws \<Longrightarrow> x \<noteq> w \<Longrightarrow> is_awaiting (?ws ! x) \<Longrightarrow> is_awaiting st'
        \<Longrightarrow> w_index (?ws ! x) \<noteq> w_index st'"
      using awt st'_aw by fastforce
    show "v = v'"
    proof (cases "v = w"; cases "v' = w")
      assume "v = w" "v' = w" then show ?thesis by simp
    next
      assume e: "v = w" "v' \<noteq> w"
      then show ?thesis using h vl fresh [of v'] by (auto simp: s')
    next
      assume e: "v \<noteq> w" "v' = w"
      then show ?thesis using h vl fresh [of v] by (auto simp: s')
    next
      assume e: "v \<noteq> w" "v' \<noteq> w"
      then show ?thesis using h vl inj [of v v'] by (auto simp: s')
    qed
  qed
  have c9: "\<forall>j < nextIndex s'. j \<in> snd ` set (writes s') \<or>
        (\<exists>v < length (workers s'). is_awaiting (workers s' ! v) \<and> w_index (workers s' ! v) = j)"
  proof (intro allI impI)
    fix j assume j: "j < nextIndex s'"
    show "j \<in> snd ` set (writes s') \<or>
        (\<exists>v < length (workers s'). is_awaiting (workers s' ! v) \<and> w_index (workers s' ! v) = j)"
    proof (cases "j < ?n")
      case True
      from cov [OF True] show ?thesis
      proof
        assume "j \<in> ?W" then show ?thesis by (simp add: s')
      next
        assume "\<exists>v < length ?ws. is_awaiting (?ws ! v) \<and> w_index (?ws ! v) = j"
        then obtain v where v: "v < length ?ws" "is_awaiting (?ws ! v)" "w_index (?ws ! v) = j"
          by blast
        show ?thesis
        proof (cases "v = w")
          case True
          then have "j = i" using v wi by simp
          then show ?thesis by (simp add: s')
        next
          case False
          then have "workers s' ! v = ?ws ! v" using v(1) by (simp add: s')
          then show ?thesis using v by (auto simp: s')
        qed
      qed
    next
      case False
      then have "?n < length urls" "j = ?n" using j by (auto simp: s' n'_def split: if_splits)
      then have "workers s' ! w = claimed U urls d rf sa w j" using w by (simp add: s' st'_def)
      then show ?thesis using w by (auto simp: s')
    qed
  qed
  have c10: "\<forall>j < length urls. j \<notin> snd ` set (writes s') \<longrightarrow> results s' ! j = None"
    using holes by (auto simp: s')
  have c11: "\<forall>v j. (v, j) \<in> set (writes s') \<longrightarrow>
        (\<exists>res. rf (parallel_job U urls d sa v j) = Inr res \<and>
               results s' ! j = Some (job_result (urls ! j) (job_path U urls d j) res))"
  proof (intro allI impI)
    fix v j assume "(v, j) \<in> set (writes s')"
    then consider "(v, j) \<in> set (writes s)" | "v = w" "j = i" by (auto simp: s')
    then show "\<exists>res. rf (parallel_job U urls d sa v j) = Inr res \<and>
               results s' ! j = Some (job_result (urls ! j) (job_path U urls d j) res)"
    proof cases
      case 1
      then have "j \<in> ?W" by force
      then have "j \<noteq> i" using i_new by auto
      then show ?thesis using vals [OF 1] by (simp add: s')
    next
      case 2
      then show ?thesis using pr u p i_len by (simp add: s')
    qed
  qed
  show "pool_inv U urls d rf sa (worker_resume U urls d rf sa w s)"
    unfolding pool_inv_def s'_def [symmetric]
    by (intro conjI) (fact c1 c2 c3 c4 c5 c6 c7 c8 c9 c10 c11)+
  show "writes (worker_resume U urls d rf sa w s) = writes s @ [(w, i)]"
    using s'(4) by (simp add: s'_def)
qed

subsection \<open>The event loop\<close>

lemma awaiting_mem:
  "w \<in> set (awaiting s) \<longleftrightarrow> w < length (workers s) \<and> is_awaiting (workers s ! w)"
  by (auto simp: awaiting_def)

lemma awaiting_pick:
  "awaiting s \<noteq> [] \<Longrightarrow> awaiting s ! (k mod length (awaiting s)) \<in> set (awaiting s)"
  by simp

lemma awaiting_Nil: "awaiting s = [] \<longleftrightarrow> (\<forall>w < length (workers s). \<not> is_awaiting (workers s ! w))"
  by (auto simp: awaiting_def filter_empty_conv)

lemma rejection_None: "rejection ws = None \<longleftrightarrow> (\<forall>e. Rejected e \<notin> set ws)"
  by (induction ws rule: rejection.induct) auto

lemma rejection_Some: "rejection ws = Some e \<Longrightarrow> Rejected e \<in> set ws"
  by (induction ws rule: rejection.induct) (auto split: if_splits)

lemma pool_inv_no_rejection: "pool_inv U urls d rf sa s \<Longrightarrow> rejection (workers s) = None"
  unfolding pool_inv_def rejection_None by (metis in_set_conv_nth)

lemma pool_inv_launched:
  "pool_inv U urls d rf sa
     \<lparr>nextIndex = k, results = replicate (length urls) None,
      workers = map (\<lambda>w. claimed U urls d rf sa w w) [0..<k], writes = []\<rparr>"
  if "k \<le> length urls"
  using that by (auto simp: pool_inv_def)

lemma is_awaiting_cases:
  "is_awaiting st \<Longrightarrow> (\<And>u i p c pr. st = Awaiting u i p c pr \<Longrightarrow> P) \<Longrightarrow> P"
  by (cases st) simp_all

lemma pool_inv_writes_bound:
  assumes "pool_inv U urls d rf sa s"
  shows "length (writes s) \<le> length urls"
    and "length (writes s) = length urls \<Longrightarrow> awaiting s = []"
    and "awaiting s = [] \<Longrightarrow> workers s \<noteq> [] \<Longrightarrow> snd ` set (writes s) = {0..<length urls}"
proof -
  let ?W = "snd ` set (writes s)"
  from assms have nle: "nextIndex s \<le> length urls"
    and dist: "distinct (map snd (writes s))"
    and wr: "\<And>w i. (w, i) \<in> set (writes s) \<Longrightarrow> w < length (workers s) \<and> i < nextIndex s"
    and norej: "\<And>w e. w < length (workers s) \<Longrightarrow> workers s ! w \<noteq> Rejected e"
    and fin: "(\<exists>w < length (workers s). workers s ! w = Finished) \<Longrightarrow> nextIndex s = length urls"
    and awt: "\<And>w. w < length (workers s) \<Longrightarrow> is_awaiting (workers s ! w) \<Longrightarrow>
        w_index (workers s ! w) < nextIndex s \<and> w_index (workers s ! w) \<notin> ?W \<and>
        workers s ! w = claimed U urls d rf sa w (w_index (workers s ! w))"
    and cov: "\<And>i. i < nextIndex s \<Longrightarrow> i \<in> ?W \<or>
        (\<exists>w < length (workers s). is_awaiting (workers s ! w) \<and> w_index (workers s ! w) = i)"
    unfolding pool_inv_def by simp_all
  have sub: "?W \<subseteq> {0..<length urls}" using wr nle by fastforce
  have card: "card ?W = length (writes s)"
    using distinct_card [OF dist] by simp
  show le: "length (writes s) \<le> length urls"
    using card_mono [OF _ sub] card by simp
  show "awaiting s = []" if full: "length (writes s) = length urls"
  proof -
    have "?W = {0..<length urls}"
      using card_subset_eq [OF _ sub] card full by simp
    then have "\<And>w. w < length (workers s) \<Longrightarrow> \<not> is_awaiting (workers s ! w)"
      using awt nle by (metis atLeastLessThan_iff le0 less_le_trans)
    then show ?thesis by (simp add: awaiting_Nil)
  qed
  show "?W = {0..<length urls}" if none: "awaiting s = []" and ne: "workers s \<noteq> []"
  proof -
    have "0 < length (workers s)" using ne by simp
    moreover have "workers s ! 0 = Finished"
      using none norej [of 0] ne by (cases "workers s ! 0") (auto simp: awaiting_Nil)
    ultimately have n: "nextIndex s = length urls" using fin by blast
    have "\<And>i. i < length urls \<Longrightarrow> i \<in> ?W"
      using cov none n by (auto simp: awaiting_Nil)
    with sub show ?thesis by auto
  qed
qed

lemma pool_inv_awaitingD:
  "pool_inv U urls d rf sa s \<Longrightarrow> w < length (workers s) \<Longrightarrow> is_awaiting (workers s ! w) \<Longrightarrow>
   w_index (workers s ! w) < nextIndex s \<and> w_index (workers s ! w) \<notin> snd ` set (writes s) \<and>
   workers s ! w = claimed U urls d rf sa w (w_index (workers s ! w))"
  unfolding pool_inv_def by simp

lemma pool_inv_nextIndex: "pool_inv U urls d rf sa s \<Longrightarrow> nextIndex s \<le> length urls"
  unfolding pool_inv_def by simp

lemma event_loop_workers_length:
  "length (workers (event_loop U urls d rf sa sched s)) = length (workers s)"
proof (induction sched arbitrary: s)
  case Nil
  then show ?case by simp
next
  case (Cons k ks)
  have "\<And>w. length (workers (worker_resume U urls d rf sa w s)) = length (workers s)"
    by (auto simp: worker_resume_def worker_loop_def Let_def
        split: worker_state.split sum.split prod.split)
  then show ?case using Cons.IH by simp
qed

lemma event_loop_inv:
  assumes "pool_inv U urls d rf sa s"
  shows "(\<exists>e w i. rejection (workers (event_loop U urls d rf sa sched s)) = Some e \<and>
            i < length urls \<and> rf (parallel_job U urls d sa w i) = Inl e) \<or>
         (pool_inv U urls d rf sa (event_loop U urls d rf sa sched s) \<and>
          (awaiting (event_loop U urls d rf sa sched s) = [] \<or>
           length (writes (event_loop U urls d rf sa sched s))
             = length (writes s) + length sched))"
  using assms
proof (induction sched arbitrary: s)
  case Nil
  then show ?case by simp
next
  case (Cons k ks)
  have norej: "rejection (workers s) = None" using Cons.prems by (rule pool_inv_no_rejection)
  show ?case
  proof (cases "awaiting s = []")
    case True
    then show ?thesis using Cons.prems by simp
  next
    case False
    define w where "w = awaiting s ! (k mod length (awaiting s))"
    have "w \<in> set (awaiting s)" unfolding w_def using False by (rule awaiting_pick)
    then have w: "w < length (workers s)" and aw: "is_awaiting (workers s ! w)"
      by (simp_all add: awaiting_mem)
    have step: "event_loop U urls d rf sa (k # ks) s
                  = event_loop U urls d rf sa ks (worker_resume U urls d rf sa w s)"
      using norej False by (simp add: w_def)
    from aw obtain u i p c pr where st: "workers s ! w = Awaiting u i p c pr"
      by (rule is_awaiting_cases)
    have cl: "workers s ! w = claimed U urls d rf sa w i" and i_lt: "i < length urls"
      using pool_inv_awaitingD [OF Cons.prems w aw] pool_inv_nextIndex [OF Cons.prems] st
      by simp_all
    then have pr: "pr = rf (parallel_job U urls d sa w i)" using st by (simp add: claimed_def)
    show ?thesis
    proof (cases pr)
      case (Inl e)
      have s': "worker_resume U urls d rf sa w s = s\<lparr>workers := (workers s)[w := Rejected e]\<rparr>"
        using st Inl by (simp add: worker_resume_reject)
      have "Rejected e \<in> set ((workers s)[w := Rejected e])"
        using w by (simp add: set_update_memI)
      then have r: "rejection ((workers s)[w := Rejected e]) \<noteq> None"
        by (auto simp: rejection_None)
      then have stop: "event_loop U urls d rf sa ks (worker_resume U urls d rf sa w s)
                 = worker_resume U urls d rf sa w s"
        by (cases ks) (simp_all add: s')
      have "\<And>e'. Rejected e' \<in> set ((workers s)[w := Rejected e]) \<Longrightarrow> e' = e"
      proof -
        fix e' assume "Rejected e' \<in> set ((workers s)[w := Rejected e])"
        then have "Rejected e' \<in> insert (Rejected e) (set (workers s))"
          using set_update_subset_insert by fastforce
        moreover have "Rejected e' \<notin> set (workers s)"
          using norej by (simp add: rejection_None)
        ultimately show "e' = e" by simp
      qed
      then have "rejection ((workers s)[w := Rejected e]) = Some e"
        using r rejection_Some by fastforce
      then show ?thesis using step stop s' i_lt pr Inl by auto
    next
      case (Inr res)
      have inv': "pool_inv U urls d rf sa (worker_resume U urls d rf sa w s)"
        and wr': "writes (worker_resume U urls d rf sa w s) = writes s @ [(w, i)]"
        using pool_inv_resume [OF Cons.prems w] st Inr by simp_all
      show ?thesis using Cons.IH [OF inv'] step wr' by simp
    qed
  qed
qed

subsection \<open>The sequential loop, and settlements in any order\<close>

lemma runSequential_loop_ok:
  assumes "\<forall>j. i \<le> j \<and> j < length urls \<longrightarrow> (\<exists>res. rf (sequential_job U urls d sa j) = Inr res)"
  shows "runSequential_loop U urls d rf sa i acc =
     Inr (acc @ map (\<lambda>j. Some (job_result (urls ! j) (job_path U urls d j)
                             (projr (rf (sequential_job U urls d sa j))))) [i..<length urls])"
  using assms
proof (induction U urls d rf sa i acc rule: runSequential_loop.induct)
  case (1 U urls d rf sa i acc)
  show ?case
  proof (cases "i < length urls")
    case True
    then obtain res where res: "rf (sequential_job U urls d sa i) = Inr res"
      using 1(2) by auto
    have res': "rf (sequential_context (urls ! i) (job_path U urls d i)
                 (''['' @ String (int i + 1) @ ''/'' @ String (int (length urls)) @ '']'') i sa) = Inr res"
      using res by (simp add: sequential_job_def)
    have IH: "runSequential_loop U urls d rf sa (i + 1)
               (acc @ [Some (job_result (urls ! i) (job_path U urls d i) res)]) =
          Inr ((acc @ [Some (job_result (urls ! i) (job_path U urls d i) res)]) @
               map (\<lambda>j. Some (job_result (urls ! j) (job_path U urls d j)
                             (projr (rf (sequential_job U urls d sa j))))) [i + 1..<length urls])"
      using 1(1) [OF True refl generateOutputPath_job_path refl res'] 1(2) by simp
    have "runSequential_loop U urls d rf sa i acc =
          runSequential_loop U urls d rf sa (i + 1)
               (acc @ [Some (job_result (urls ! i) (job_path U urls d i) res)])"
      using True res' by (subst runSequential_loop.simps)
        (simp add: generateOutputPath_job_path Let_def)
    then show ?thesis using IH True res by (simp add: upt_conv_Cons)
  next
    case False
    then show ?thesis by (subst runSequential_loop.simps) simp
  qed
qed

lemma runSequential_loop_raise:
  assumes "i \<le> k" "k < length urls" "rf (sequential_job U urls d sa k) = Inl e"
    "\<forall>j. i \<le> j \<and> j < k \<longrightarrow> (\<exists>res. rf (sequential_job U urls d sa j) = Inr res)"
  shows "runSequential_loop U urls d rf sa i acc = Inl e"
  using assms
proof (induction U urls d rf sa i acc rule: runSequential_loop.induct)
  case (1 U urls d rf sa i acc)
  have lt: "i < length urls" using 1(2,3) by simp
  show ?case
  proof (cases "i = k")
    case True
    have "rf (sequential_context (urls ! i) (job_path U urls d i)
                 (''['' @ String (int i + 1) @ ''/'' @ String (int (length urls)) @ '']'') i sa) = Inl e"
      using 1(4) True by (simp add: sequential_job_def)
    then show ?thesis using lt
      by (subst runSequential_loop.simps) (simp add: generateOutputPath_job_path Let_def)
  next
    case False
    then have ik: "i < k" using 1(2) by simp
    then obtain res where res: "rf (sequential_job U urls d sa i) = Inr res"
      using 1(5) by auto
    have res': "rf (sequential_context (urls ! i) (job_path U urls d i)
                 (''['' @ String (int i + 1) @ ''/'' @ String (int (length urls)) @ '']'') i sa) = Inr res"
      using res by (simp add: sequential_job_def)
    have IH: "runSequential_loop U urls d rf sa (i + 1)
               (acc @ [Some (job_result (urls ! i) (job_path U urls d i) res)]) = Inl e"
      using 1(1) [OF lt refl generateOutputPath_job_path refl res'] ik 1(3,4,5) by simp
    have "runSequential_loop U urls d rf sa i acc =
          runSequential_loop U urls d rf sa (i + 1)
               (acc @ [Some (job_result (urls ! i) (job_path U urls d i) res)])"
      using lt res' by (subst runSequential_loop.simps)
        (simp add: generateOutputPath_job_path Let_def)
    then show ?thesis using IH by simp
  qed
qed

lemma workers_worker_resume:
  "workers (worker_resume U urls d rf sa w s) =
     (case workers s ! w of
        Awaiting u i p c pr \<Rightarrow>
          (workers s)[w := (case pr of Inl e \<Rightarrow> Rejected e
                            | Inr res \<Rightarrow> if nextIndex s < length urls
                                then claimed U urls d rf sa w (nextIndex s) else Finished)]
      | _ \<Rightarrow> workers s)"
  by (simp add: worker_resume_def worker_loop_def Let_def generateOutputPath_job_path
      claimed_def parallel_job_def split: worker_state.split sum.split)

lemma context_inv_resume:
  assumes "context_inv U urls d rf sa s" "w < length (workers s)"
  shows "context_inv U urls d rf sa (worker_resume U urls d rf sa w s)"
    and "length (workers (worker_resume U urls d rf sa w s)) = length (workers s)"
proof -
  show len: "length (workers (worker_resume U urls d rf sa w s)) = length (workers s)"
    by (simp add: workers_worker_resume split: worker_state.split)
  show "context_inv U urls d rf sa (worker_resume U urls d rf sa w s)"
    unfolding context_inv_def
  proof (intro allI impI)
    fix v assume v: "v < length (workers (worker_resume U urls d rf sa w s))"
      and a: "is_awaiting (workers (worker_resume U urls d rf sa w s) ! v)"
    have vl: "v < length (workers s)" using v len by simp
    show "workers (worker_resume U urls d rf sa w s) ! v
            = claimed U urls d rf sa v (w_index (workers (worker_resume U urls d rf sa w s) ! v))"
    proof (cases "v = w")
      case True
      then show ?thesis using a vl assms(1)
        by (auto simp: workers_worker_resume context_inv_def
            split: worker_state.splits sum.splits if_splits)
    next
      case False
      then have "workers (worker_resume U urls d rf sa w s) ! v = workers s ! v"
        by (simp add: workers_worker_resume split: worker_state.split)
      then show ?thesis using a vl assms(1) by (simp add: context_inv_def)
    qed
  qed
qed

lemma context_inv_settle_all:
  "context_inv U urls d rf sa s \<Longrightarrow>
   context_inv U urls d rf sa (settle_all U urls d rf sa ws s) \<and>
   length (workers (settle_all U urls d rf sa ws s)) = length (workers s)"
proof (induction ws arbitrary: s)
  case Nil
  then show ?case by simp
next
  case (Cons w ws)
  show ?case
  proof (cases "w < length (workers s) \<and> is_awaiting (workers s ! w)")
    case True
    then show ?thesis
      using Cons.IH [OF context_inv_resume(1) [OF Cons.prems, of w]]
        context_inv_resume(2) [OF Cons.prems, of w] by simp
  next
    case False
    then show ?thesis using Cons.IH [OF Cons.prems] by auto
  qed
qed

lemma event_loop_settle_all:
  "\<exists>ws. event_loop U urls d rf sa sched s = settle_all U urls d rf sa ws s"
proof (induction sched arbitrary: s)
  case Nil
  show ?case by (rule exI [of _ "[]"]) simp
next
  case (Cons k ks)
  show ?case
  proof (cases "rejection (workers s) \<noteq> None \<or> awaiting s = []")
    case True
    then have "event_loop U urls d rf sa (k # ks) s = settle_all U urls d rf sa [] s" by auto
    then show ?thesis by blast
  next
    case False
    define w where "w = awaiting s ! (k mod length (awaiting s))"
    have "w \<in> set (awaiting s)" unfolding w_def using False by (intro awaiting_pick) simp
    then have w: "w < length (workers s) \<and> is_awaiting (workers s ! w)"
      by (simp add: awaiting_mem)
    obtain ws where "event_loop U urls d rf sa ks (worker_resume U urls d rf sa w s)
                       = settle_all U urls d rf sa ws (worker_resume U urls d rf sa w s)"
      using Cons.IH by blast
    then have "event_loop U urls d rf sa (k # ks) s = settle_all U urls d rf sa (w # ws) s"
      using False w by (simp add: w_def)
    then show ?thesis by blast
  qed
qed

subsection \<open>Lines of a URL file; the summary loop\<close>

lemma trim_first:
  "trim l = (case dropWhile is_space l of [] \<Rightarrow> []
             | c # r \<Rightarrow> c # rev (dropWhile is_space (rev r)))"
proof (cases "dropWhile is_space l")
  case Nil
  show ?thesis by (simp add: trim_def Nil)
next
  case (Cons c r)
  then have "\<not> is_space c" using hd_dropWhile [of is_space l] by simp
  then have "dropWhile is_space (rev r @ [c]) = dropWhile is_space (rev r) @ [c]"
    by (simp add: dropWhile_append3)
  then show ?thesis by (simp add: trim_def Cons)
qed

lemma startsWith_hash: "startsWith s ''#'' \<longleftrightarrow> (\<exists>r. s = CHR ''#'' # r)"
  by (cases s) (simp_all add: startsWith_def)

lemma keep_line_iff:
  "(length (trim l) > 0 \<and> \<not> startsWith (trim l) ''#'')
     \<longleftrightarrow> (trim l \<noteq> [] \<and> first_non_space l \<noteq> Some CHR ''#'')"
proof (cases "dropWhile is_space l")
  case Nil
  show ?thesis by (simp add: trim_first first_non_space_def Nil)
next
  case (Cons c r)
  show ?thesis by (simp add: trim_first first_non_space_def Cons startsWith_hash)
qed

lemma readUrlFile_lines:
  "filter (\<lambda>line. length line > 0 \<and> \<not> startsWith line ''#'') (map trim ls)
     = map trim (filter (\<lambda>l. trim l \<noteq> [] \<and> first_non_space l \<noteq> Some CHR ''#'') ls)"
  using keep_line_iff by (induction ls) auto

lemma url_lines_scenario: "url_lines ''# comment\<newline>\<newline>https://example.com/page\<newline>not a url''
        = [''https://example.com/page'', ''not a url'']"
  by code_simp

lemma summary_loop_counts:
  assumes "\<forall>r \<in> set rs. \<exists>obj b. r = Some obj \<and> obj ''success'' = Some (JBool b)"
  shows "summary_loop rs acc =
           acc\<lparr>logged := logged acc @ concat (map job_lines rs),
               successCount := successCount acc + length (filter job_succeeded rs),
               failCount := failCount acc + length (filter (\<lambda>r. \<not> job_succeeded r) rs)\<rparr>"
  using assms
proof (induction rs arbitrary: acc)
  case Nil
  then show ?case by simp
next
  case (Cons r rs)
  then obtain obj b where r: "r = Some obj" "obj ''success'' = Some (JBool b)" by auto
  have IH: "\<And>acc. summary_loop rs acc =
           acc\<lparr>logged := logged acc @ concat (map job_lines rs),
               successCount := successCount acc + length (filter job_succeeded rs),
               failCount := failCount acc + length (filter (\<lambda>r. \<not> job_succeeded r) rs)\<rparr>"
    using Cons by simp
  have js: "job_succeeded (Some obj) = b"
    by (simp add: r job_succeeded_def)
  have jl: "job_lines (Some obj) =
      [''  ['' @ (if b then ''OK'' else ''FAIL'') @ ''] '' @ template (obj ''url''),
       ''         '' @ (if b then template (obj ''outputPath'') else template (obj ''error''))]"
    unfolding job_lines_def js by simp
  show ?case
    by (cases b) (simp_all add: r IH Let_def truthy_def js jl)
qed

subsection \<open>What runParallel returns\<close>

lemma runParallel_pool_launched:
  "runParallel_pool U urls d rf sa conc sched =
     event_loop U urls d rf sa sched
       \<lparr>nextIndex = nat (min (effective_concurrency conc) (int (length urls))),
        results = replicate (length urls) None,
        workers = map (\<lambda>w. claimed U urls d rf sa w w)
                    [0..<nat (min (effective_concurrency conc) (int (length urls)))],
        writes = []\<rparr>"
proof -
  let ?s0 = "\<lparr>nextIndex = 0, results = replicate (length urls) None, workers = [], writes = []\<rparr>"
  have "launch_loop U urls d rf sa (effective_concurrency conc) 0 ?s0
        = ?s0\<lparr>nextIndex := nat (min (effective_concurrency conc) (int (length urls))),
              workers := workers ?s0 @ map (\<lambda>w. claimed U urls d rf sa w w)
                    [0..<nat (min (effective_concurrency conc) (int (length urls)))]\<rparr>"
    by (rule launch_loop_explicit) simp_all
  then show ?thesis
    by (simp add: runParallel_pool_def effective_concurrency_def)
qed

lemma runParallel_pool_workers:
  "length (workers (runParallel_pool U urls d rf sa conc sched))
     = nat (min (effective_concurrency conc) (int (length urls)))"
  by (simp add: runParallel_pool_launched event_loop_workers_length)

lemma runParallel_pool_cases:
  "(\<exists>e w i. rejection (workers (runParallel_pool U urls d rf sa conc sched)) = Some e \<and>
       i < length urls \<and> rf (parallel_job U urls d sa w i) = Inl e) \<or>
   (pool_inv U urls d rf sa (runParallel_pool U urls d rf sa conc sched) \<and>
    (awaiting (runParallel_pool U urls d rf sa conc sched) = [] \<or>
     length (writes (runParallel_pool U urls d rf sa conc sched)) = length sched))"
proof -
  have "nat (min (effective_concurrency conc) (int (length urls))) \<le> length urls" by simp
  from event_loop_inv [OF pool_inv_launched [OF this], of U d rf sa sched]
  show ?thesis by (simp add: runParallel_pool_launched)
qed

lemma distinct_snd_unique:
  "distinct (map snd xs) \<Longrightarrow> (a, i) \<in> set xs \<Longrightarrow> (b, i) \<in> set xs \<Longrightarrow> a = b"
proof -
  assume "distinct (map snd xs)" "(a, i) \<in> set xs" "(b, i) \<in> set xs"
  then have "inj_on snd (set xs)" "snd (a, i) = snd (b, i)" by (simp_all add: distinct_map)
  then have "(a, i) = (b, i)" using \<open>(a, i) \<in> set xs\<close> \<open>(b, i) \<in> set xs\<close> by (rule inj_onD)
  then show "a = b" by simp
qed

lemma pool_inv_complete:
  assumes inv: "pool_inv U urls d rf sa s" and none: "awaiting s = []"
    and ne: "workers s \<noteq> [] \<or> urls = []"
  shows "snd ` set (writes s) = {0..<length urls}"
    and "\<forall>i < length urls. \<exists>w res. (w, i) \<in> set (writes s) \<and>
            rf (parallel_job U urls d sa w i) = Inr res \<and>
            results s ! i = Some (job_result (urls ! i) (job_path U urls d i) res)"
proof -
  show W: "snd ` set (writes s) = {0..<length urls}"
  proof (cases "workers s = []")
    case False
    then show ?thesis using pool_inv_writes_bound(3) [OF inv none] by simp
  next
    case True
    then have "urls = []" using ne by simp
    moreover have "\<And>w i. (w, i) \<in> set (writes s) \<Longrightarrow> w < length (workers s)"
      using inv unfolding pool_inv_def by simp
    then have "writes s = []" using True by (cases "writes s") auto
    ultimately show ?thesis by simp
  qed
  have vals: "\<And>w i. (w, i) \<in> set (writes s) \<Longrightarrow>
        (\<exists>res. rf (parallel_job U urls d sa w i) = Inr res \<and>
               results s ! i = Some (job_result (urls ! i) (job_path U urls d i) res))"
    using inv unfolding pool_inv_def by simp
  show "\<forall>i < length urls. \<exists>w res. (w, i) \<in> set (writes s) \<and>
            rf (parallel_job U urls d sa w i) = Inr res \<and>
            results s ! i = Some (job_result (urls ! i) (job_path U urls d i) res)"
  proof (intro allI impI)
    fix i assume "i < length urls"
    then have "i \<in> snd ` set (writes s)" using W by simp
    then obtain w where "(w, i) \<in> set (writes s)" by force
    then show "\<exists>w res. (w, i) \<in> set (writes s) \<and>
            rf (parallel_job U urls d sa w i) = Inr res \<and>
            results s ! i = Some (job_result (urls ! i) (job_path U urls d i) res)"
      using vals by blast
  qed
qed

lemma promise_all_Inr:
  "promise_all s = Some (Inr rs) \<longleftrightarrow> rejection (workers s) = None \<and> awaiting s = [] \<and> rs = results s"
  by (auto simp: promise_all_def split: option.splits if_splits)

lemma promise_all_None:
  "promise_all s = None \<longleftrightarrow> rejection (workers s) = None \<and> awaiting s \<noteq> []"
  by (auto simp: promise_all_def split: option.splits if_splits)

lemma workers_nonempty:
  assumes "1 \<le> effective_concurrency conc"
  shows "workers (runParallel_pool U urls d rf sa conc sched) \<noteq> [] \<or> urls = []"
proof (cases "urls = []")
  case False
  then have "0 < nat (min (effective_concurrency conc) (int (length urls)))"
    using assms by simp
  then show ?thesis using runParallel_pool_workers [of U urls d rf sa conc sched]
    by (metis length_greater_0_conv)
qed simp

lemma runParallel_pool_returned:
  assumes ret: "promise_all (runParallel_pool U urls d rf sa conc sched) = Some (Inr rs)"
    and c: "1 \<le> effective_concurrency conc"
  shows "pool_inv U urls d rf sa (runParallel_pool U urls d rf sa conc sched)"
    and "awaiting (runParallel_pool U urls d rf sa conc sched) = []"
    and "rs = results (runParallel_pool U urls d rf sa conc sched)"
    and "snd ` set (writes (runParallel_pool U urls d rf sa conc sched)) = {0..<length urls}"
    and "\<forall>i < length urls. \<exists>w res.
            (w, i) \<in> set (writes (runParallel_pool U urls d rf sa conc sched)) \<and>
            rf (parallel_job U urls d sa w i) = Inr res \<and>
            rs ! i = Some (job_result (urls ! i) (job_path U urls d i) res)"
proof -
  let ?f = "runParallel_pool U urls d rf sa conc sched"
  from ret have r: "rejection (workers ?f) = None" and a: "awaiting ?f = []"
    and rs: "rs = results ?f"
    by (simp_all add: promise_all_Inr)
  show inv: "pool_inv U urls d rf sa ?f"
    using runParallel_pool_cases [of U urls d rf sa conc sched] r by auto
  show "awaiting ?f = []" by (rule a)
  show "rs = results ?f" by (rule rs)
  show "snd ` set (writes ?f) = {0..<length urls}"
    by (rule pool_inv_complete(1) [OF inv a workers_nonempty [OF c]])
  show "\<forall>i < length urls. \<exists>w res. (w, i) \<in> set (writes ?f) \<and>
            rf (parallel_job U urls d sa w i) = Inr res \<and>
            rs ! i = Some (job_result (urls ! i) (job_path U urls d i) res)"
    unfolding rs by (rule pool_inv_complete(2) [OF inv a workers_nonempty [OF c]])
qed

lemma runParallel_pool_settles:
  assumes "length urls \<le> length sched"
  shows "promise_all (runParallel_pool U urls d rf sa conc sched) \<noteq> None"
proof -
  let ?f = "runParallel_pool U urls d rf sa conc sched"
  from runParallel_pool_cases [of U urls d rf sa conc sched]
  show ?thesis
  proof
    assume "\<exists>e w i. rejection (workers ?f) = Some e \<and> i < length urls \<and>
              rf (parallel_job U urls d sa w i) = Inl e"
    then show ?thesis by (auto simp: promise_all_def)
  next
    assume h: "pool_inv U urls d rf sa ?f \<and> (awaiting ?f = [] \<or> length (writes ?f) = length sched)"
    then have inv: "pool_inv U urls d rf sa ?f" by simp
    have "awaiting ?f = []"
    proof (cases "awaiting ?f = []")
      case False
      with h have "length (writes ?f) = length sched" by simp
      with assms pool_inv_writes_bound(1) [OF inv] have "length (writes ?f) = length urls" by simp
      then show ?thesis by (rule pool_inv_writes_bound(2) [OF inv])
    qed simp
    then show ?thesis by (simp add: promise_all_None)
  qed
qed

lemma job_result_url: "res ''url'' = None \<Longrightarrow> job_result u p res ''url'' = Some (JStr u)"
  by (simp add: job_result_def map_add_def)

subsection \<open>Worker hints\<close>

lemma string_of_nat_inj: "string_of_nat a = string_of_nat b \<Longrightarrow> a = b"
  by (metis decimal_value_string_of_nat)

lemma parallel_job_hints:
  assumes "sa ''sinkName'' = None" "sa ''displayStartNumber'' = None"
  shows "parallel_job U urls d sa w i ''displayStartNumber'' = Some (JNum (99 + int w * 10))"
    and "parallel_job U urls d sa w i ''sinkName''
           = Some (JStr (''recording_sink_'' @ String (int w)))"
  using assms by (simp_all add: parallel_job_def parallel_context_def map_add_def)

subsection \<open>The file name has no separator\<close>

lemma not_alnum_slash: "\<not> is_alnum CHR ''/''"
  by (simp add: is_alnum_def)

lemma replace_non_alnum_no_slash: "CHR ''/'' \<notin> set (replace_non_alnum s)"
  using not_alnum_slash by (auto simp: replace_non_alnum_def)

lemma replace_non_alnum_dash_no_slash: "CHR ''/'' \<notin> set (replace_non_alnum_dash s)"
  using not_alnum_slash by (auto simp: replace_non_alnum_dash_def)

lemma host_part_no_slash: "CHR ''/'' \<notin> set h \<Longrightarrow> CHR ''/'' \<notin> set (replace_dots (strip_www h))"
  by (auto simp: replace_dots_def strip_www_def dest: in_set_dropD)

lemma index_prefix_digits: "0 \<le> i \<Longrightarrow> \<forall>c \<in> set (index_prefix i). is_digit c"
  using string_of_nat_digits [of "nat (i + 1)"]
  by (auto simp: index_prefix_def padStart_def String_nonneg is_digit_def)

lemma index_prefix_no_slash: "0 \<le> i \<Longrightarrow> CHR ''/'' \<notin> set (index_prefix i)"
  using index_prefix_digits [of i] by (auto simp: is_digit_def)

lemma mp4_name:
  "x @ ''.mp4'' \<noteq> []" "x @ ''.mp4'' \<noteq> ''.''" "x @ ''.mp4'' \<noteq> ''..''"
proof -
  show "x @ ''.mp4'' \<noteq> []" by simp
  show "x @ ''.mp4'' \<noteq> ''.''"
  proof
    assume "x @ ''.mp4'' = ''.''"
    then have "length (x @ ''.mp4'') = length ''.''" by (rule arg_cong)
    then show False by simp
  qed
  show "x @ ''.mp4'' \<noteq> ''..''"
  proof
    assume "x @ ''.mp4'' = ''..''"
    then have "length (x @ ''.mp4'') = length ''..''" by (rule arg_cong)
    then show False by simp
  qed
qed

lemma generateOutputPath_name:
  assumes "0 \<le> index"
    and "\<forall>parsed. new_URL u = Inr parsed \<longrightarrow> CHR ''/'' \<notin> set (hostname parsed)"
  shows "\<exists>rest. generateOutputPath new_URL u index outputDir
                  = Inr (path_join [outputDir, (index_prefix index @ ''-'' @ rest) @ ''.mp4'']) \<and>
                CHR ''/'' \<notin> set rest"
proof (cases "new_URL u")
  case (Inl e)
  then have "generateOutputPath new_URL u index outputDir
               = Inr (path_join [outputDir, (index_prefix index @ ''-''
                   @ substring0 50 (replace_non_alnum u)) @ ''.mp4''])"
    by (simp add: generateOutputPath_def)
  moreover have "CHR ''/'' \<notin> set (substring0 50 (replace_non_alnum u))"
    using replace_non_alnum_no_slash [of u] by (auto simp: substring0_def dest: in_set_takeD)
  ultimately show ?thesis by blast
next
  case (Inr parsed)
  define H where "H = replace_dots (strip_www (hostname parsed))"
  define S where "S = substring0 60 (replace_non_alnum_dash
                            (strip_trailing_slash (strip_leading_slash (pathname parsed))))"
  have H: "CHR ''/'' \<notin> set H" unfolding H_def using assms(2) Inr by (intro host_part_no_slash) simp
  have S: "CHR ''/'' \<notin> set S"
    unfolding S_def using replace_non_alnum_dash_no_slash
    by (auto simp: substring0_def dest: in_set_takeD)
  have "generateOutputPath new_URL u index outputDir
          = Inr (path_join [outputDir, (index_prefix index @ ''-''
               @ (if S \<noteq> [] then H @ ''-'' @ S else H)) @ ''.mp4''])"
    using Inr by (simp add: generateOutputPath_def H_def S_def Let_def)
  moreover have "CHR ''/'' \<notin> set (if S \<noteq> [] then H @ ''-'' @ S else H)"
    using H S by simp
  ultimately show ?thesis by blast
qed

subsection \<open>The concrete inputs\<close>

lemma example_dir: "ensureOutputDir example_fs ''/out'' = Inr ()"
  by (simp add: ensureOutputDir_def example_fs_def)

lemma sequential_job_index:
  "sequential_job U urls d Map.empty i ''jobIndex'' = Some (JNum (int i))"
  by (simp add: sequential_job_def sequential_context_def)

lemma parallel_job_index:
  "parallel_job U urls d Map.empty w i ''jobIndex'' = Some (JNum (int i))"
  by (simp add: parallel_job_def parallel_context_def)

section \<open>The claims\<close>

subsection \<open>C1\<close>

text \<open>Claim C1, as the code has it. The claim is that \<open>runSequential\<close> and \<open>runParallel\<close>, at
  any concurrency, return an array as long as the URL list whose \<open>i\<close>-th entry has the
  \<open>i\<close>-th URL in its \<open>url\<close> field. On the code this needs four conditions: the output
  directory can be made; the recording function does not throw; its result has no
  \<open>url\<close> field of its own, since \<^verbatim>\<open>{ url, outputPath, ...result }\<close> lets the result
  replace the field; and, for \<open>runParallel\<close>, the concurrency is at least 1. Then both
  functions return such an array, \<open>runParallel\<close> under every order of completion, once
  every recording has settled (a schedule with an entry for each job).\<close>

theorem batch_results_follow_input:
  assumes dir: "ensureOutputDir fs outputDir = Inr ()"
    and noraise: "\<forall>ctx e. recordFn ctx \<noteq> Inl e"
    and nourl: "\<forall>ctx res. recordFn ctx = Inr res \<longrightarrow> res ''url'' = None"
    and conc: "1 \<le> effective_concurrency concurrency"
    and sched: "length urls \<le> length schedule"
  shows "(\<exists>rs. runSequential fs new_URL urls outputDir recordFn sharedArgs = Inr rs \<and>
            length rs = length urls \<and>
            (\<forall>i < length urls. \<exists>r. rs ! i = Some r \<and> r ''url'' = Some (JStr (urls ! i)))) \<and>
         (\<exists>rs. runParallel fs new_URL urls outputDir recordFn sharedArgs concurrency schedule
                 = Some (Inr rs) \<and>
            length rs = length urls \<and>
            (\<forall>i < length urls. \<exists>r. rs ! i = Some r \<and> r ''url'' = Some (JStr (urls ! i))))"
proof
  have ok: "\<And>ctx. \<exists>res. recordFn ctx = Inr res"
    using noraise by (metis sum.exhaust)
  let ?rs = "map (\<lambda>j. Some (job_result (urls ! j) (job_path new_URL urls outputDir j)
                 (projr (recordFn (sequential_job new_URL urls outputDir sharedArgs j)))))
               [0..<length urls]"
  have "runSequential fs new_URL urls outputDir recordFn sharedArgs = Inr ?rs"
    using runSequential_loop_ok [of 0 urls recordFn new_URL outputDir sharedArgs "[]"] ok dir
    by (simp add: runSequential_def)
  moreover have "\<forall>i < length urls. \<exists>r. ?rs ! i = Some r \<and> r ''url'' = Some (JStr (urls ! i))"
  proof (intro allI impI)
    fix i assume i: "i < length urls"
    obtain res where res: "recordFn (sequential_job new_URL urls outputDir sharedArgs i) = Inr res"
      using ok by blast
    then have "res ''url'' = None" using nourl by blast
    then show "\<exists>r. ?rs ! i = Some r \<and> r ''url'' = Some (JStr (urls ! i))"
      using i res by (simp add: job_result_url)
  qed
  ultimately show "\<exists>rs. runSequential fs new_URL urls outputDir recordFn sharedArgs = Inr rs \<and>
            length rs = length urls \<and>
            (\<forall>i < length urls. \<exists>r. rs ! i = Some r \<and> r ''url'' = Some (JStr (urls ! i)))"
    by simp
next
  let ?f = "runParallel_pool new_URL urls outputDir recordFn sharedArgs concurrency schedule"
  have "promise_all ?f \<noteq> None" using sched by (rule runParallel_pool_settles)
  moreover have "\<And>e. promise_all ?f \<noteq> Some (Inl e)"
  proof
    fix e assume "promise_all ?f = Some (Inl e)"
    then have r: "rejection (workers ?f) = Some e"
      by (auto simp: promise_all_def split: option.splits if_splits)
    from runParallel_pool_cases [of new_URL urls outputDir recordFn sharedArgs concurrency schedule]
    show False using r noraise pool_inv_no_rejection by fastforce
  qed
  ultimately obtain rs where ret: "promise_all ?f = Some (Inr rs)"
    by (metis not_Some_eq sum.exhaust)
  have inv: "pool_inv new_URL urls outputDir recordFn sharedArgs ?f"
    by (rule runParallel_pool_returned(1) [OF ret conc])
  have len: "length rs = length urls"
    using runParallel_pool_returned(3) [OF ret conc] inv unfolding pool_inv_def by simp
  have "\<forall>i < length urls. \<exists>r. rs ! i = Some r \<and> r ''url'' = Some (JStr (urls ! i))"
    using runParallel_pool_returned(5) [OF ret conc] nourl job_result_url by fastforce
  then show "\<exists>rs. runParallel fs new_URL urls outputDir recordFn sharedArgs concurrency schedule
                 = Some (Inr rs) \<and>
            length rs = length urls \<and>
            (\<forall>i < length urls. \<exists>r. rs ! i = Some r \<and> r ''url'' = Some (JStr (urls ! i)))"
    using ret len dir by (simp add: runParallel_def)
qed

text \<open>An instance: five URLs, the third recording returns a failure record, two workers.\<close>

theorem batch_results_follow_input_witness:
  "ensureOutputDir example_fs ''/out'' = Inr () \<and>
   (\<exists>rs. runSequential example_fs example_parser example_urls ''/out'' record_failing Map.empty
            = Inr rs \<and>
      length rs = length example_urls \<and>
      (\<exists>r. rs ! 2 = Some r \<and> r ''url'' = Some (JStr (example_urls ! 2)))) \<and>
   (\<exists>rs. runParallel example_fs example_parser example_urls ''/out'' record_failing Map.empty
            (Some 2) [1, 1, 0, 0, 0] = Some (Inr rs) \<and>
      length rs = length example_urls \<and>
      (\<exists>r. rs ! 2 = Some r \<and> r ''url'' = Some (JStr (example_urls ! 2))))"
proof -
  have h2: "\<forall>ctx e. record_failing ctx \<noteq> Inl e" by (simp add: record_failing_def)
  have h3: "\<forall>ctx res. record_failing ctx = Inr res \<longrightarrow> res ''url'' = None"
    by (auto simp: record_failing_def split: if_splits)
  have h4: "1 \<le> effective_concurrency (Some 2)" by (simp add: effective_concurrency_def)
  have h5: "length example_urls \<le> length [1, 1, 0, 0, 0 :: nat]" by (simp add: example_urls_def)
  have i: "2 < length example_urls" by (simp add: example_urls_def)
  from batch_results_follow_input [OF example_dir h2 h3 h4 h5, of example_parser Map.empty]
  obtain rs1 rs2 where
    1: "runSequential example_fs example_parser example_urls ''/out'' record_failing Map.empty
          = Inr rs1" "length rs1 = length example_urls"
       "\<forall>i < length example_urls. \<exists>r. rs1 ! i = Some r \<and> r ''url'' = Some (JStr (example_urls ! i))"
    and 2: "runParallel example_fs example_parser example_urls ''/out'' record_failing Map.empty
            (Some 2) [1, 1, 0, 0, 0] = Some (Inr rs2)" "length rs2 = length example_urls"
       "\<forall>i < length example_urls. \<exists>r. rs2 ! i = Some r \<and> r ''url'' = Some (JStr (example_urls ! i))"
    by blast
  from 1(3) 2(3) i have
    "\<exists>r. rs1 ! 2 = Some r \<and> r ''url'' = Some (JStr (example_urls ! 2))"
    "\<exists>r. rs2 ! 2 = Some r \<and> r ''url'' = Some (JStr (example_urls ! 2))"
    by blast+
  with 1 2 example_dir show ?thesis by blast
qed

text \<open>The claim as stated fails in three ways. At concurrency 0 the slot of the only job stays a
  hole. A result with a \<open>url\<close> field replaces the URL of the job. A recording that throws
  at the second job ends \<open>runSequential\<close> with the exception, and no array is returned.\<close>

theorem batch_results_follow_input_counterexample:
  "runParallel example_fs example_parser [''a''] ''/out'' record_ok Map.empty (Some 0) []
     = Some (Inr [None]) \<and>
   runSequential example_fs example_parser [''a''] ''/out'' record_renaming Map.empty
     = Inr [Some (job_result ''a'' ''/out/001-a.mp4'' [''success'' \<mapsto> JBool True, ''url'' \<mapsto> JStr ''b''])] \<and>
   job_result ''a'' ''/out/001-a.mp4'' [''success'' \<mapsto> JBool True, ''url'' \<mapsto> JStr ''b''] ''url''
     = Some (JStr ''b'') \<and>
   runSequential example_fs example_parser [''a'', ''b''] ''/out'' record_throwing Map.empty
     = Inl (Error ''crash'')"
proof (intro conjI)
  show "runParallel example_fs example_parser [''a''] ''/out'' record_ok Map.empty (Some 0) []
     = Some (Inr [None])"
    by (simp add: runParallel_def example_dir runParallel_pool_launched effective_concurrency_def
        promise_all_def awaiting_def)
  have p: "job_path example_parser [''a''] ''/out'' 0 = ''/out/001-a.mp4''"
    unfolding job_path_def by code_simp
  have "runSequential_loop example_parser [''a''] ''/out'' record_renaming Map.empty 0 []
          = Inr ([] @ map (\<lambda>j. Some (job_result ([''a''] ! j) (job_path example_parser [''a''] ''/out'' j)
                   (projr (record_renaming (sequential_job example_parser [''a''] ''/out'' Map.empty j)))))
                [0..<length [''a'']])"
    by (rule runSequential_loop_ok) (simp add: record_renaming_def)
  then show "runSequential example_fs example_parser [''a''] ''/out'' record_renaming Map.empty
     = Inr [Some (job_result ''a'' ''/out/001-a.mp4'' [''success'' \<mapsto> JBool True, ''url'' \<mapsto> JStr ''b''])]"
    by (simp add: runSequential_def example_dir p record_renaming_def)
  show "job_result ''a'' ''/out/001-a.mp4'' [''success'' \<mapsto> JBool True, ''url'' \<mapsto> JStr ''b''] ''url''
     = Some (JStr ''b'')"
    by (simp add: job_result_def)
  have "runSequential_loop example_parser [''a'', ''b''] ''/out'' record_throwing Map.empty 0 []
          = Inl (Error ''crash'')"
    by (rule runSequential_loop_raise [where k = 1])
      (simp_all add: record_throwing_def sequential_job_index)
  then show "runSequential example_fs example_parser [''a'', ''b''] ''/out'' record_throwing Map.empty
     = Inl (Error ''crash'')"
    by (simp add: runSequential_def example_dir)
qed

subsection \<open>C2\<close>

text \<open>Claim C2. With a concurrency \<open>c\<close> between 1 and the number of jobs, whenever
  \<open>runParallel\<close> returns an array, under any schedule, \<open>c\<close> workers were launched and the
  log of writes names every index from 0 to \<open>N - 1\<close> exactly once: the indices in the log
  are distinct and are exactly those of the jobs, each was written by exactly one worker,
  and no slot of the array is a hole. And the call does return: when the output directory
  can be made and the recording function does not throw, every schedule with an entry for
  each job ends with the array returned.\<close>

theorem pool_writes_every_index_once:
  assumes "1 \<le> c" "c \<le> int (length urls)"
  shows "(\<forall>rs. runParallel fs new_URL urls outputDir recordFn sharedArgs (Some c) schedule
               = Some (Inr rs) \<longrightarrow>
            length (workers (runParallel_pool new_URL urls outputDir recordFn sharedArgs (Some c) schedule)) = nat c \<and>
            distinct (map snd (writes (runParallel_pool new_URL urls outputDir recordFn sharedArgs (Some c) schedule))) \<and>
            snd ` set (writes (runParallel_pool new_URL urls outputDir recordFn sharedArgs (Some c) schedule))
              = {0..<length urls} \<and>
            (\<forall>i < length urls. \<exists>!w. (w, i) \<in> set (writes (runParallel_pool new_URL urls outputDir recordFn sharedArgs (Some c) schedule))) \<and>
            (\<forall>w i. (w, i) \<in> set (writes (runParallel_pool new_URL urls outputDir recordFn sharedArgs (Some c) schedule)) \<longrightarrow> w < nat c) \<and>
            length rs = length urls \<and>
            (\<forall>i < length urls. rs ! i \<noteq> None)) \<and>
         (ensureOutputDir fs outputDir = Inr () \<and> (\<forall>ctx e. recordFn ctx \<noteq> Inl e) \<and>
          length urls \<le> length schedule \<longrightarrow>
            (\<exists>rs. runParallel fs new_URL urls outputDir recordFn sharedArgs (Some c) schedule
                    = Some (Inr rs)))"
proof (intro conjI allI impI)
  let ?f = "runParallel_pool new_URL urls outputDir recordFn sharedArgs (Some c) schedule"
  have c: "1 \<le> effective_concurrency (Some c)" using assms(1) by (simp add: effective_concurrency_def)
  have k: "nat (min (effective_concurrency (Some c)) (int (length urls))) = nat c"
    using assms by (simp add: effective_concurrency_def)
  fix rs assume "runParallel fs new_URL urls outputDir recordFn sharedArgs (Some c) schedule = Some (Inr rs)"
  then have ret: "promise_all ?f = Some (Inr rs)"
    by (auto simp: runParallel_def split: sum.splits)
  note R = runParallel_pool_returned [OF ret c]
  have inv: "pool_inv new_URL urls outputDir recordFn sharedArgs ?f" by (rule R(1))
  show len: "length (workers ?f) = nat c"
    using runParallel_pool_workers [of new_URL urls outputDir recordFn sharedArgs "Some c" schedule] k
    by simp
  show dist: "distinct (map snd (writes ?f))" using inv unfolding pool_inv_def by simp
  show "snd ` set (writes ?f) = {0..<length urls}" by (rule R(4))
  show "length rs = length urls" using R(3) inv unfolding pool_inv_def by simp
  {
    fix w i assume "(w, i) \<in> set (writes ?f)"
    then have "w < length (workers ?f)" using inv unfolding pool_inv_def by simp
    then show "w < nat c" using len by simp
  }
  {
    fix i assume i: "i < length urls"
    then obtain w where w: "(w, i) \<in> set (writes ?f)" using R(5) by blast
    show "\<exists>!w. (w, i) \<in> set (writes ?f)"
    proof (rule ex1I [of _ w])
      show "(w, i) \<in> set (writes ?f)" by (rule w)
    next
      fix v assume "(v, i) \<in> set (writes ?f)"
      then show "v = w" using distinct_snd_unique [OF dist] w by blast
    qed
    show "rs ! i \<noteq> None" using R(5) i by fastforce
  }
next
  let ?f = "runParallel_pool new_URL urls outputDir recordFn sharedArgs (Some c) schedule"
  assume h: "ensureOutputDir fs outputDir = Inr () \<and> (\<forall>ctx e. recordFn ctx \<noteq> Inl e) \<and>
          length urls \<le> length schedule"
  then have "promise_all ?f \<noteq> None" by (intro runParallel_pool_settles) simp
  moreover have "\<And>e. promise_all ?f \<noteq> Some (Inl e)"
  proof
    fix e assume "promise_all ?f = Some (Inl e)"
    then have r: "rejection (workers ?f) = Some e"
      by (auto simp: promise_all_def split: option.splits if_splits)
    from runParallel_pool_cases [of new_URL urls outputDir recordFn sharedArgs "Some c" schedule]
    show False using r h pool_inv_no_rejection by fastforce
  qed
  ultimately obtain rs where "promise_all ?f = Some (Inr rs)"
    by (metis not_Some_eq sum.exhaust)
  then show "\<exists>rs. runParallel fs new_URL urls outputDir recordFn sharedArgs (Some c) schedule
                    = Some (Inr rs)"
    using h by (simp add: runParallel_def)
qed

text \<open>An instance: five jobs, two workers; the call returns and the log of writes is complete.\<close>

theorem pool_writes_every_index_once_witness:
  "(1::int) \<le> 2 \<and> 2 \<le> int (length example_urls) \<and>
   (\<exists>rs. runParallel example_fs example_parser example_urls ''/out'' record_failing Map.empty
            (Some 2) [1, 1, 0, 0, 0] = Some (Inr rs) \<and> length rs = length example_urls) \<and>
   distinct (map snd (writes (runParallel_pool example_parser example_urls ''/out'' record_failing
                                Map.empty (Some 2) [1, 1, 0, 0, 0]))) \<and>
   snd ` set (writes (runParallel_pool example_parser example_urls ''/out'' record_failing
                        Map.empty (Some 2) [1, 1, 0, 0, 0])) = {0..<length example_urls}"
proof -
  have h1: "(1::int) \<le> 2" by simp
  have h2: "2 \<le> int (length example_urls)" by (simp add: example_urls_def)
  have h3: "\<forall>ctx e. record_failing ctx \<noteq> Inl e" by (simp add: record_failing_def)
  have h4: "length example_urls \<le> length [1, 1, 0, 0, 0 :: nat]" by (simp add: example_urls_def)
  note T = pool_writes_every_index_once [OF h1 h2, of example_fs example_parser "''/out''"
      record_failing Map.empty "[1, 1, 0, 0, 0]"]
  from T example_dir h3 h4 obtain rs where
    rs: "runParallel example_fs example_parser example_urls ''/out'' record_failing Map.empty
            (Some 2) [1, 1, 0, 0, 0] = Some (Inr rs)"
    by blast
  with T show ?thesis using h1 h2 by blast
qed

subsection \<open>C3\<close>

text \<open>Claim C3, as the code has it. The claim is that an exception of the recording function is
  caught and turned into a failure record, so that the batch goes on. The code has no
  handler around the call: the exception ends the batch. If the recording of job \<open>k\<close>
  throws \<open>e\<close> and those before it return, \<open>runSequential\<close> throws \<open>e\<close>. If the recording
  of job \<open>k\<close> throws whichever worker runs it, \<open>runParallel\<close> never returns an array, and
  once every recording has settled it has thrown an exception that the recording of some
  job threw. (A failure that is returned as a record does not end the batch; that is
  part of the statement for C1.)\<close>

theorem recording_exception_aborts_batch:
  assumes dir: "ensureOutputDir fs outputDir = Inr ()" and k: "k < length urls"
  shows "(recordFn (sequential_job new_URL urls outputDir sharedArgs k) = Inl e \<and>
          (\<forall>j < k. \<exists>res. recordFn (sequential_job new_URL urls outputDir sharedArgs j) = Inr res)
            \<longrightarrow> runSequential fs new_URL urls outputDir recordFn sharedArgs = Inl e) \<and>
         ((\<forall>w. \<exists>e. recordFn (parallel_job new_URL urls outputDir sharedArgs w k) = Inl e) \<and>
          1 \<le> effective_concurrency concurrency \<longrightarrow>
            (\<forall>schedule rs. runParallel fs new_URL urls outputDir recordFn sharedArgs concurrency schedule
                 \<noteq> Some (Inr rs)) \<and>
            (\<forall>schedule. length urls \<le> length schedule \<longrightarrow>
               (\<exists>e w i. runParallel fs new_URL urls outputDir recordFn sharedArgs concurrency schedule
                          = Some (Inl e) \<and>
                        i < length urls \<and>
                        recordFn (parallel_job new_URL urls outputDir sharedArgs w i) = Inl e)))"
proof (intro conjI impI)
  assume "recordFn (sequential_job new_URL urls outputDir sharedArgs k) = Inl e \<and>
          (\<forall>j < k. \<exists>res. recordFn (sequential_job new_URL urls outputDir sharedArgs j) = Inr res)"
  then have "runSequential_loop new_URL urls outputDir recordFn sharedArgs 0 [] = Inl e"
    using k by (intro runSequential_loop_raise [of 0 k]) simp_all
  then show "runSequential fs new_URL urls outputDir recordFn sharedArgs = Inl e"
    using dir by (simp add: runSequential_def)
next
  assume h: "(\<forall>w. \<exists>e. recordFn (parallel_job new_URL urls outputDir sharedArgs w k) = Inl e) \<and>
          1 \<le> effective_concurrency concurrency"
  then have c: "1 \<le> effective_concurrency concurrency" by simp
  have never: "promise_all (runParallel_pool new_URL urls outputDir recordFn sharedArgs concurrency schedule)
                 \<noteq> Some (Inr rs)" for schedule rs
  proof
    assume ret: "promise_all (runParallel_pool new_URL urls outputDir recordFn sharedArgs concurrency schedule)
                   = Some (Inr rs)"
    from runParallel_pool_returned(5) [OF ret c] k
    obtain w res where "recordFn (parallel_job new_URL urls outputDir sharedArgs w k) = Inr res"
      by blast
    then show False using h by (metis Inl_Inr_False)
  qed
  show "\<forall>schedule rs. runParallel fs new_URL urls outputDir recordFn sharedArgs concurrency schedule
                 \<noteq> Some (Inr rs)"
    using never dir by (simp add: runParallel_def)
  show "\<forall>schedule. length urls \<le> length schedule \<longrightarrow>
               (\<exists>e w i. runParallel fs new_URL urls outputDir recordFn sharedArgs concurrency schedule
                          = Some (Inl e) \<and>
                        i < length urls \<and>
                        recordFn (parallel_job new_URL urls outputDir sharedArgs w i) = Inl e)"
  proof (intro allI impI)
    fix schedule :: "nat list" assume long: "length urls \<le> length schedule"
    let ?f = "runParallel_pool new_URL urls outputDir recordFn sharedArgs concurrency schedule"
    from runParallel_pool_cases [of new_URL urls outputDir recordFn sharedArgs concurrency schedule]
    show "\<exists>e w i. runParallel fs new_URL urls outputDir recordFn sharedArgs concurrency schedule
                          = Some (Inl e) \<and>
                        i < length urls \<and>
                        recordFn (parallel_job new_URL urls outputDir sharedArgs w i) = Inl e"
    proof
      assume "\<exists>e w i. rejection (workers ?f) = Some e \<and> i < length urls \<and>
                recordFn (parallel_job new_URL urls outputDir sharedArgs w i) = Inl e"
      then obtain e w i where r: "rejection (workers ?f) = Some e" and i: "i < length urls"
        and raised: "recordFn (parallel_job new_URL urls outputDir sharedArgs w i) = Inl e"
        by blast
      have "runParallel fs new_URL urls outputDir recordFn sharedArgs concurrency schedule
              = Some (Inl e)"
        using dir r by (simp add: runParallel_def promise_all_def)
      then show ?thesis using i raised by blast
    next
      assume "pool_inv new_URL urls outputDir recordFn sharedArgs ?f \<and>
               (awaiting ?f = [] \<or> length (writes ?f) = length schedule)"
      then have "rejection (workers ?f) = None" using pool_inv_no_rejection by blast
      moreover have "promise_all ?f \<noteq> None" using long by (rule runParallel_pool_settles)
      ultimately have "\<exists>rs. promise_all ?f = Some (Inr rs)"
        by (auto simp: promise_all_def split: if_splits)
      then show ?thesis using never by blast
    qed
  qed
qed

text \<open>An instance: the recording of the second of five jobs throws.\<close>

theorem recording_exception_aborts_batch_witness:
  "ensureOutputDir example_fs ''/out'' = Inr () \<and> 1 < length example_urls \<and>
   runSequential example_fs example_parser example_urls ''/out'' record_throwing Map.empty
     = Inl (Error ''crash'') \<and>
   (\<forall>schedule rs. runParallel example_fs example_parser example_urls ''/out'' record_throwing Map.empty
       (Some 2) schedule \<noteq> Some (Inr rs))"
proof -
  have k: "1 < length example_urls" by (simp add: example_urls_def)
  have s: "record_throwing (sequential_job example_parser example_urls ''/out'' Map.empty 1)
             = Inl (Error ''crash'') \<and>
           (\<forall>j < 1. \<exists>res. record_throwing (sequential_job example_parser example_urls ''/out'' Map.empty j)
              = Inr res)"
    by (simp add: record_throwing_def sequential_job_index)
  have p: "(\<forall>w. \<exists>e. record_throwing (parallel_job example_parser example_urls ''/out'' Map.empty w 1)
              = Inl e) \<and> 1 \<le> effective_concurrency (Some 2)"
    by (simp add: record_throwing_def parallel_job_index effective_concurrency_def)
  show ?thesis
    using recording_exception_aborts_batch [OF example_dir k, of record_throwing example_parser
        Map.empty "Error ''crash''" "Some 2"] s p example_dir k
    by blast
qed

text \<open>The claim as stated fails: with three jobs and a recording that throws at the second, both
  functions end with the exception instead of an array of three results.\<close>

theorem recording_exception_aborts_batch_counterexample:
  "runSequential example_fs example_parser [''a'', ''b'', ''c''] ''/out'' record_throwing Map.empty
     = Inl (Error ''crash'') \<and>
   runParallel example_fs example_parser [''a'', ''b'', ''c''] ''/out'' record_throwing Map.empty
     (Some 2) [1] = Some (Inl (Error ''crash''))"
proof
  have "runSequential_loop example_parser [''a'', ''b'', ''c''] ''/out'' record_throwing Map.empty 0 []
          = Inl (Error ''crash'')"
    by (rule runSequential_loop_raise [where k = 1])
      (simp_all add: record_throwing_def sequential_job_index)
  then show "runSequential example_fs example_parser [''a'', ''b'', ''c''] ''/out'' record_throwing Map.empty
     = Inl (Error ''crash'')"
    by (simp add: runSequential_def example_dir)
  show "runParallel example_fs example_parser [''a'', ''b'', ''c''] ''/out'' record_throwing Map.empty
     (Some 2) [1] = Some (Inl (Error ''crash''))"
    by (simp add: runParallel_def example_dir runParallel_pool_launched effective_concurrency_def
        promise_all_def awaiting_def numeral_2_eq_2 worker_resume_def
        claimed_def record_throwing_def parallel_job_index)
qed

subsection \<open>C4\<close>

text \<open>Claim C4. \<open>generateOutputPath\<close> returns a path for every URL string, index and output
  directory, whatever the URL parser does with the string. When the parser throws, the
  file name is the index prefix, a dash, the slug and \<open>.mp4\<close>, where the slug is the URL
  cut to 50 characters with every character other than a letter a-z, A-Z or a digit
  replaced by a dash.\<close>

theorem generateOutputPath_never_fails:
  "(\<exists>path. generateOutputPath new_URL u index outputDir = Inr path) \<and>
   (\<forall>e. new_URL u = Inl e \<longrightarrow>
      (\<exists>slug. generateOutputPath new_URL u index outputDir
                 = Inr (path_join [outputDir, index_prefix index @ ''-'' @ slug @ ''.mp4'']) \<and>
              length slug = min 50 (length u) \<and>
              (\<forall>k < length slug.
                 slug ! k = (if u ! k \<in> set ''abcdefghijklmnopqrstuvwxyz''
                               \<or> u ! k \<in> set ''ABCDEFGHIJKLMNOPQRSTUVWXYZ''
                               \<or> u ! k \<in> set ''0123456789''
                             then u ! k else CHR ''-''))))"
proof (intro conjI allI impI)
  show "\<exists>path. generateOutputPath new_URL u index outputDir = Inr path"
    by (rule generateOutputPath_Inr)
next
  fix e assume e: "new_URL u = Inl e"
  let ?slug = "substring0 50 (replace_non_alnum u)"
  have "generateOutputPath new_URL u index outputDir
          = Inr (path_join [outputDir, index_prefix index @ ''-'' @ ?slug @ ''.mp4''])"
    using e by (simp add: generateOutputPath_def)
  moreover have "length ?slug = min 50 (length u)"
    by (simp add: substring0_def replace_non_alnum_def min.commute)
  moreover have "\<forall>k < length ?slug.
                 ?slug ! k = (if u ! k \<in> set ''abcdefghijklmnopqrstuvwxyz''
                               \<or> u ! k \<in> set ''ABCDEFGHIJKLMNOPQRSTUVWXYZ''
                               \<or> u ! k \<in> set ''0123456789''
                             then u ! k else CHR ''-'')"
    unfolding is_alnum_iff [symmetric] by (simp add: substring0_def replace_non_alnum_def)
  ultimately show "\<exists>slug. generateOutputPath new_URL u index outputDir
                 = Inr (path_join [outputDir, index_prefix index @ ''-'' @ slug @ ''.mp4'']) \<and>
              length slug = min 50 (length u) \<and>
              (\<forall>k < length slug.
                 slug ! k = (if u ! k \<in> set ''abcdefghijklmnopqrstuvwxyz''
                               \<or> u ! k \<in> set ''ABCDEFGHIJKLMNOPQRSTUVWXYZ''
                               \<or> u ! k \<in> set ''0123456789''
                             then u ! k else CHR ''-''))"
    by blast
qed

text \<open>An instance: a string that the parser rejects.\<close>

theorem generateOutputPath_never_fails_witness:
  "example_parser ''not a valid url!!'' = Inl (Error ''TypeError: Invalid URL'') \<and>
   (\<exists>slug. generateOutputPath example_parser ''not a valid url!!'' 4 ''/out''
              = Inr (path_join [''/out'', index_prefix 4 @ ''-'' @ slug @ ''.mp4'']) \<and>
           length slug = min 50 (length ''not a valid url!!''))"
proof -
  have h: "example_parser ''not a valid url!!'' = Inl (Error ''TypeError: Invalid URL'')"
    by (simp add: example_parser_def)
  show ?thesis
    using generateOutputPath_never_fails [of example_parser "''not a valid url!!''" 4 "''/out''"] h
    by blast
qed

text \<open>The scenario of the specification for a string that does not parse.\<close>

lemma generateOutputPath_fallback_scenario:
  "generateOutputPath example_parser ''not a valid url!!'' 4 ''/out''
     = Inr ''/out/005-not-a-valid-url--.mp4''"
  by code_simp

subsection \<open>C5\<close>

text \<open>Claim C5, as the code has it. The claim is that the file name begins with \<open>index + 1\<close>
  padded to exactly three digits, so that the prefixes repeat in batches of more than 999.
  \<^verbatim>\<open>padStart(3, '0')\<close> pads, it does not cut. For an index from 0 to
  \<open>MAX_SAFE_INTEGER\<close> (\<open>2 ^ 53 - 1\<close>, the range in which the code's \<open>index + 1\<close> is
  exact, and which holds every index of an array): the prefix has at least three digits,
  exactly three when \<open>index < 999\<close> and all the digits of \<open>index + 1\<close> beyond that, and it
  denotes \<open>index + 1\<close>, so two different indices of that range never have the same
  prefix. With a host name without \<open>/\<close> the returned path is a directory part, empty or
  ending in \<open>/\<close>, followed by the file name, which has no \<open>/\<close> and begins with the
  prefix and a dash.\<close>

theorem generateOutputPath_index_prefix:
  assumes "0 \<le> index"
    and "\<forall>parsed. new_URL u = Inr parsed \<longrightarrow> CHR ''/'' \<notin> set (hostname parsed)"
    and "index \<le> MAX_SAFE_INTEGER"
  shows "(\<exists>dirpart rest.
            generateOutputPath new_URL u index outputDir
              = Inr (dirpart @ index_prefix index @ ''-'' @ rest) \<and>
            (dirpart = [] \<or> last dirpart = CHR ''/'') \<and>
            CHR ''/'' \<notin> set (index_prefix index @ ''-'' @ rest)) \<and>
         index_prefix index
           = replicate (3 - length (string_of_nat (nat index + 1))) CHR ''0''
               @ string_of_nat (nat index + 1) \<and>
         (\<forall>c \<in> set (index_prefix index). is_digit c) \<and>
         decimal_value (index_prefix index) = nat index + 1 \<and>
         3 \<le> length (index_prefix index) \<and>
         (length (index_prefix index) = 3 \<longleftrightarrow> index < 999) \<and>
         (999 \<le> index \<longrightarrow> index_prefix index = string_of_nat (nat index + 1)) \<and>
         (\<forall>j. 0 \<le> j \<and> j \<le> MAX_SAFE_INTEGER \<and> index_prefix j = index_prefix index
            \<longrightarrow> j = index)"
proof (intro conjI)
  obtain rest where gen: "generateOutputPath new_URL u index outputDir
                  = Inr (path_join [outputDir, (index_prefix index @ ''-'' @ rest) @ ''.mp4''])"
    and rest: "CHR ''/'' \<notin> set rest"
    using generateOutputPath_name [of index new_URL u outputDir] assms(1,2) by blast
  let ?f = "(index_prefix index @ ''-'' @ rest) @ ''.mp4''"
  have f: "CHR ''/'' \<notin> set ?f" using rest index_prefix_no_slash [OF assms(1)] by simp
  obtain pre where pre: "path_join [outputDir, ?f] = pre @ ?f" "pre = [] \<or> last pre = CHR ''/''"
    using path_join_filename [OF f mp4_name] by blast
  have "generateOutputPath new_URL u index outputDir
          = Inr (pre @ index_prefix index @ ''-'' @ (rest @ ''.mp4''))"
    using gen pre(1) by simp
  moreover have "CHR ''/'' \<notin> set (index_prefix index @ ''-'' @ (rest @ ''.mp4''))"
    using f by simp
  ultimately show "\<exists>dirpart rest.
            generateOutputPath new_URL u index outputDir
              = Inr (dirpart @ index_prefix index @ ''-'' @ rest) \<and>
            (dirpart = [] \<or> last dirpart = CHR ''/'') \<and>
            CHR ''/'' \<notin> set (index_prefix index @ ''-'' @ rest)"
    using pre(2) by blast
next
  have n: "nat (index + 1) = nat index + 1" using assms(1) by simp
  show eq: "index_prefix index
           = replicate (3 - length (string_of_nat (nat index + 1))) CHR ''0''
               @ string_of_nat (nat index + 1)"
    using assms(1) by (simp add: index_prefix_def padStart_def String_nonneg n)
  show "\<forall>c \<in> set (index_prefix index). is_digit c" by (rule index_prefix_digits [OF assms(1)])
  show "decimal_value (index_prefix index) = nat index + 1"
    by (rule index_prefix_value [OF assms(1)])
  show "3 \<le> length (index_prefix index)"
    by (simp add: index_prefix_def padStart_def)
  show l3: "length (index_prefix index) = 3 \<longleftrightarrow> index < 999"
    by (rule index_prefix_length3 [OF assms(1)])
  show "999 \<le> index \<longrightarrow> index_prefix index = string_of_nat (nat index + 1)"
  proof
    assume "999 \<le> index"
    then have "length (index_prefix index) \<noteq> 3" using l3 by simp
    then have "3 - length (string_of_nat (nat index + 1)) = 0"
      unfolding eq by (auto simp: not_le)
    then show "index_prefix index = string_of_nat (nat index + 1)"
      using eq by simp
  qed
  show "\<forall>j. 0 \<le> j \<and> j \<le> MAX_SAFE_INTEGER \<and> index_prefix j = index_prefix index
            \<longrightarrow> j = index"
    using index_prefix_inj [OF _ assms(1)] by blast
qed

text \<open>An instance: index 1233 and the URL of the scenario.\<close>

theorem generateOutputPath_index_prefix_witness:
  "(0::int) \<le> 1233 \<and> 1233 \<le> MAX_SAFE_INTEGER \<and>
   CHR ''/'' \<notin> set (hostname \<lparr>hostname = ''www.example.com'', pathname = ''/Foo/Bar/''\<rparr>) \<and>
   (\<exists>dirpart rest.
      generateOutputPath example_parser ''https://www.Example.com/Foo/Bar/'' 1233 ''/out''
        = Inr (dirpart @ index_prefix 1233 @ ''-'' @ rest) \<and>
      (dirpart = [] \<or> last dirpart = CHR ''/'') \<and>
      CHR ''/'' \<notin> set (index_prefix 1233 @ ''-'' @ rest)) \<and>
   decimal_value (index_prefix 1233) = nat 1233 + 1 \<and>
   index_prefix 1233 = string_of_nat (nat 1233 + 1)"
proof -
  have h1: "(0::int) \<le> 1233" by simp
  have h3: "(999::int) \<le> 1233" by simp
  have h5: "1233 \<le> MAX_SAFE_INTEGER" by (simp add: MAX_SAFE_INTEGER_def)
  have h4: "CHR ''/'' \<notin> set (hostname \<lparr>hostname = ''www.example.com'', pathname = ''/Foo/Bar/''\<rparr>)"
    by simp
  have h2: "\<forall>parsed. example_parser ''https://www.Example.com/Foo/Bar/'' = Inr parsed
      \<longrightarrow> CHR ''/'' \<notin> set (hostname parsed)"
    by (auto simp: example_parser_def)
  show ?thesis
    using generateOutputPath_index_prefix [of 1233 example_parser
        "''https://www.Example.com/Foo/Bar/''" "''/out''"] h1 h2 h3 h4 h5 by blast
qed

text \<open>The claim as stated fails at index 999: the prefix is \<open>1000\<close>, four digits. The prefixes of
  the indices 0 and 1000 differ.\<close>

theorem generateOutputPath_index_prefix_counterexample:
  "generateOutputPath example_parser ''x'' 999 ''/out'' = Inr ''/out/1000-x.mp4'' \<and>
   index_prefix 999 = ''1000'' \<and>
   length (index_prefix 999) \<noteq> 3 \<and>
   index_prefix 0 = ''001'' \<and>
   index_prefix 1000 = ''1001'' \<and>
   index_prefix 0 \<noteq> index_prefix 1000"
  by code_simp

text \<open>At the last index of the range the prefix is the one the code computes,
  \<^verbatim>\<open>String(9007199254740991 + 1)\<close>.\<close>

lemma index_prefix_MAX_SAFE_INTEGER:
  "index_prefix MAX_SAFE_INTEGER = ''9007199254740992''"
proof -
  have d: "map digit_char [0, 1, 2, 3, 4, 5, 6, 7, 8, 9] = ''0123456789''"
    by code_simp
  show ?thesis
    using d by (simp add: MAX_SAFE_INTEGER_def index_prefix_def padStart_def String_def
      string_of_nat.simps)
qed

subsection \<open>C6\<close>

text \<open>Claim C6, as the code has it. The claim is that the hints a worker passes depend on its id
  only, so that two active workers never share a sink name or a display number. The
  context ends with \<^verbatim>\<open>...sharedArgs\<close>, so a \<open>sinkName\<close> or \<open>displayStartNumber\<close> among
  the shared arguments replaces the worker's own. When the shared arguments have neither
  key: \<open>runParallel\<close> launches \<open>min(concurrency, urls.length)\<close> workers (none when that
  is not positive) with the ids 0, 1, ..., worker \<open>w\<close> starting on job \<open>w\<close>; every state
  the pool reaches is reached by a sequence of settlements; and after any sequence of
  settlements the number of workers is the same, a suspended worker \<open>w\<close> has passed
  \<open>displayStartNumber = 99 + 10 w\<close> and \<open>sinkName = recording_sink_w\<close>, and two different
  suspended workers have passed different values of both.\<close>

theorem worker_hints_follow_worker_id:
  assumes "sharedArgs ''sinkName'' = None" "sharedArgs ''displayStartNumber'' = None"
  shows "workers (runParallel_pool new_URL urls outputDir recordFn sharedArgs concurrency [])
           = map (\<lambda>w. claimed new_URL urls outputDir recordFn sharedArgs w w)
               [0..<nat (min (effective_concurrency concurrency) (int (length urls)))] \<and>
         (\<exists>ws. runParallel_pool new_URL urls outputDir recordFn sharedArgs concurrency schedule
                = settle_all new_URL urls outputDir recordFn sharedArgs ws
                    (runParallel_pool new_URL urls outputDir recordFn sharedArgs concurrency [])) \<and>
         (\<forall>ws s. s = settle_all new_URL urls outputDir recordFn sharedArgs ws
                      (runParallel_pool new_URL urls outputDir recordFn sharedArgs concurrency []) \<longrightarrow>
            length (workers s) = nat (min (effective_concurrency concurrency) (int (length urls))) \<and>
            (\<forall>w < length (workers s). is_awaiting (workers s ! w) \<longrightarrow>
               w_context (workers s ! w) ''displayStartNumber'' = Some (JNum (99 + int w * 10)) \<and>
               w_context (workers s ! w) ''sinkName''
                 = Some (JStr (''recording_sink_'' @ String (int w)))) \<and>
            (\<forall>w < length (workers s). \<forall>w' < length (workers s).
               w \<noteq> w' \<and> is_awaiting (workers s ! w) \<and> is_awaiting (workers s ! w') \<longrightarrow>
               w_context (workers s ! w) ''displayStartNumber''
                 \<noteq> w_context (workers s ! w') ''displayStartNumber'' \<and>
               w_context (workers s ! w) ''sinkName'' \<noteq> w_context (workers s ! w') ''sinkName''))"
proof (intro conjI allI impI)
  let ?k = "nat (min (effective_concurrency concurrency) (int (length urls)))"
  let ?L = "runParallel_pool new_URL urls outputDir recordFn sharedArgs concurrency []"
  show L: "workers ?L = map (\<lambda>w. claimed new_URL urls outputDir recordFn sharedArgs w w) [0..<?k]"
    by (simp add: runParallel_pool_launched)
  have "runParallel_pool new_URL urls outputDir recordFn sharedArgs concurrency schedule
          = event_loop new_URL urls outputDir recordFn sharedArgs schedule ?L"
    by (simp add: runParallel_pool_launched)
  then show "\<exists>ws. runParallel_pool new_URL urls outputDir recordFn sharedArgs concurrency schedule
                = settle_all new_URL urls outputDir recordFn sharedArgs ws ?L"
    using event_loop_settle_all by simp
  have cL: "context_inv new_URL urls outputDir recordFn sharedArgs ?L"
    unfolding context_inv_def L by simp
  fix ws s assume s: "s = settle_all new_URL urls outputDir recordFn sharedArgs ws ?L"
  have ci: "context_inv new_URL urls outputDir recordFn sharedArgs s"
    and ln: "length (workers s) = length (workers ?L)"
    using context_inv_settle_all [OF cL, of ws] s by simp_all
  show "length (workers s) = ?k" using ln L by simp
  have hint: "w_context (workers s ! w) ''displayStartNumber'' = Some (JNum (99 + int w * 10)) \<and>
              w_context (workers s ! w) ''sinkName''
                 = Some (JStr (''recording_sink_'' @ String (int w)))"
    if "w < length (workers s)" "is_awaiting (workers s ! w)" for w
  proof -
    have "workers s ! w = claimed new_URL urls outputDir recordFn sharedArgs w (w_index (workers s ! w))"
      using ci that unfolding context_inv_def by simp
    then have "w_context (workers s ! w)
                 = parallel_job new_URL urls outputDir sharedArgs w (w_index (workers s ! w))"
      by (metis claimed_def worker_state.sel(4))
    then show ?thesis using parallel_job_hints [OF assms] by simp
  qed
  {
    fix w assume "w < length (workers s)" "is_awaiting (workers s ! w)"
    then show "w_context (workers s ! w) ''displayStartNumber'' = Some (JNum (99 + int w * 10))"
      and "w_context (workers s ! w) ''sinkName''
                 = Some (JStr (''recording_sink_'' @ String (int w)))"
      using hint by simp_all
  }
  {
    fix w w' assume w: "w < length (workers s)" and w': "w' < length (workers s)"
      and h: "w \<noteq> w' \<and> is_awaiting (workers s ! w) \<and> is_awaiting (workers s ! w')"
    have ne: "string_of_nat w \<noteq> string_of_nat w'" using h string_of_nat_inj by blast
    show "w_context (workers s ! w) ''displayStartNumber''
                 \<noteq> w_context (workers s ! w') ''displayStartNumber''"
      using hint [OF w] hint [OF w'] h by simp
    show "w_context (workers s ! w) ''sinkName'' \<noteq> w_context (workers s ! w') ''sinkName''"
      using hint [OF w] hint [OF w'] h ne by (simp add: String_def)
  }
qed

text \<open>An instance: no shared arguments, two workers, three settlements; both workers are
  still suspended, each with the hints of its own id.\<close>

theorem worker_hints_follow_worker_id_witness:
  "(Map.empty :: jsobj) ''sinkName'' = None \<and> (Map.empty :: jsobj) ''displayStartNumber'' = None \<and>
   length (workers (settle_all example_parser example_urls ''/out'' record_ok Map.empty [1, 0, 1]
              (runParallel_pool example_parser example_urls ''/out'' record_ok Map.empty (Some 2) [])))
     = 2 \<and>
   is_awaiting (workers (settle_all example_parser example_urls ''/out'' record_ok Map.empty [1, 0, 1]
              (runParallel_pool example_parser example_urls ''/out'' record_ok Map.empty (Some 2) [])) ! 0) \<and>
   is_awaiting (workers (settle_all example_parser example_urls ''/out'' record_ok Map.empty [1, 0, 1]
              (runParallel_pool example_parser example_urls ''/out'' record_ok Map.empty (Some 2) [])) ! 1) \<and>
   w_context (workers (settle_all example_parser example_urls ''/out'' record_ok Map.empty [1, 0, 1]
              (runParallel_pool example_parser example_urls ''/out'' record_ok Map.empty (Some 2) [])) ! 0)
       ''sinkName'' = Some (JStr ''recording_sink_0'') \<and>
   w_context (workers (settle_all example_parser example_urls ''/out'' record_ok Map.empty [1, 0, 1]
              (runParallel_pool example_parser example_urls ''/out'' record_ok Map.empty (Some 2) [])) ! 1)
       ''sinkName'' = Some (JStr ''recording_sink_1'') \<and>
   w_context (workers (settle_all example_parser example_urls ''/out'' record_ok Map.empty [1, 0, 1]
              (runParallel_pool example_parser example_urls ''/out'' record_ok Map.empty (Some 2) [])) ! 0)
       ''displayStartNumber'' = Some (JNum 99) \<and>
   w_context (workers (settle_all example_parser example_urls ''/out'' record_ok Map.empty [1, 0, 1]
              (runParallel_pool example_parser example_urls ''/out'' record_ok Map.empty (Some 2) [])) ! 1)
       ''displayStartNumber'' = Some (JNum 109)"
proof -
  let ?S = "settle_all example_parser example_urls ''/out'' record_ok Map.empty [1, 0, 1]
              (runParallel_pool example_parser example_urls ''/out'' record_ok Map.empty (Some 2) [])"
  have h1: "(Map.empty :: jsobj) ''sinkName'' = None" by simp
  have h2: "(Map.empty :: jsobj) ''displayStartNumber'' = None" by simp
  have k: "nat (min (effective_concurrency (Some 2)) (int (length example_urls))) = 2"
    by (simp add: effective_concurrency_def example_urls_def)
  have a0: "is_awaiting (workers ?S ! 0)" by code_simp
  have a1: "is_awaiting (workers ?S ! 1)" by code_simp
  have s: "String (int 0) = ''0''" "String (int 1) = ''1''" by code_simp+
  from worker_hints_follow_worker_id [of Map.empty example_parser example_urls "''/out''"
        record_ok "Some 2" "[]"] h1 h2
  have len: "length (workers ?S) = 2"
    and hints: "\<forall>w < length (workers ?S). is_awaiting (workers ?S ! w) \<longrightarrow>
               w_context (workers ?S ! w) ''displayStartNumber'' = Some (JNum (99 + int w * 10)) \<and>
               w_context (workers ?S ! w) ''sinkName''
                 = Some (JStr (''recording_sink_'' @ String (int w)))"
    unfolding k by blast+
  from hints len a0 a1 have
    "w_context (workers ?S ! 0) ''displayStartNumber'' = Some (JNum (99 + int 0 * 10))"
    "w_context (workers ?S ! 0) ''sinkName'' = Some (JStr (''recording_sink_'' @ String (int 0)))"
    "w_context (workers ?S ! 1) ''displayStartNumber'' = Some (JNum (99 + int 1 * 10))"
    "w_context (workers ?S ! 1) ''sinkName'' = Some (JStr (''recording_sink_'' @ String (int 1)))"
    by simp_all
  then show ?thesis using h1 h2 len a0 a1 unfolding s by simp
qed

text \<open>The claim as stated fails when the shared arguments have a \<open>sinkName\<close>: both workers are
  suspended on a recording that was given that same name.\<close>

theorem worker_hints_follow_worker_id_counterexample:
  "is_awaiting (workers (runParallel_pool example_parser [''a'', ''b''] ''/out'' record_ok
                  [''sinkName'' \<mapsto> JStr ''shared_sink''] (Some 2) []) ! 0) \<and>
   is_awaiting (workers (runParallel_pool example_parser [''a'', ''b''] ''/out'' record_ok
                  [''sinkName'' \<mapsto> JStr ''shared_sink''] (Some 2) []) ! 1) \<and>
   w_context (workers (runParallel_pool example_parser [''a'', ''b''] ''/out'' record_ok
                  [''sinkName'' \<mapsto> JStr ''shared_sink''] (Some 2) []) ! 0) ''sinkName''
     = Some (JStr ''shared_sink'') \<and>
   w_context (workers (runParallel_pool example_parser [''a'', ''b''] ''/out'' record_ok
                  [''sinkName'' \<mapsto> JStr ''shared_sink''] (Some 2) []) ! 1) ''sinkName''
     = Some (JStr ''shared_sink'')"
  by (simp add: runParallel_pool_launched effective_concurrency_def numeral_2_eq_2
      claimed_def parallel_job_def parallel_context_def)

subsection \<open>C7\<close>

text \<open>Claim C7. When the URL parser reads \<^verbatim>\<open>https://www.Example.com/Foo/Bar/\<close> as the host
  \<^verbatim>\<open>www.example.com\<close> and the path \<^verbatim>\<open>/Foo/Bar/\<close>, as the platform's parser does,
  \<open>generateOutputPath\<close> at index 0 and directory \<^verbatim>\<open>/out\<close> returns
  \<^verbatim>\<open>/out/001-example-com-Foo-Bar.mp4\<close>.\<close>

theorem generateOutputPath_scenario:
  assumes "new_URL ''https://www.Example.com/Foo/Bar/''
             = Inr \<lparr>hostname = ''www.example.com'', pathname = ''/Foo/Bar/''\<rparr>"
  shows "generateOutputPath new_URL ''https://www.Example.com/Foo/Bar/'' 0 ''/out''
           = Inr ''/out/001-example-com-Foo-Bar.mp4''"
proof -
  have "generateOutputPath new_URL ''https://www.Example.com/Foo/Bar/'' 0 ''/out''
        = generateOutputPath (\<lambda>_. Inr \<lparr>hostname = ''www.example.com'', pathname = ''/Foo/Bar/''\<rparr>)
            ''https://www.Example.com/Foo/Bar/'' 0 ''/out''"
    by (simp add: generateOutputPath_def assms)
  also have "\<dots> = Inr ''/out/001-example-com-Foo-Bar.mp4''"
    by code_simp
  finally show ?thesis .
qed

text \<open>An instance: the parser of the examples.\<close>

theorem generateOutputPath_scenario_witness:
  "example_parser ''https://www.Example.com/Foo/Bar/''
     = Inr \<lparr>hostname = ''www.example.com'', pathname = ''/Foo/Bar/''\<rparr> \<and>
   generateOutputPath example_parser ''https://www.Example.com/Foo/Bar/'' 0 ''/out''
     = Inr ''/out/001-example-com-Foo-Bar.mp4''"
proof -
  have h: "example_parser ''https://www.Example.com/Foo/Bar/''
     = Inr \<lparr>hostname = ''www.example.com'', pathname = ''/Foo/Bar/''\<rparr>"
    by (simp add: example_parser_def)
  show ?thesis using generateOutputPath_scenario [of example_parser] h by simp
qed

subsection \<open>C8\<close>

text \<open>Claim C8. \<open>readUrlFile\<close> throws \<open>URL file not found\<close> when the path does not exist.
  When the file exists and can be read, the result depends on its contents only: the
  lines that are not empty after trimming and whose first character that is not white
  space is not \<open>#\<close>, trimmed and in order, or the error \<open>No URLs found\<close> when there is no
  such line. The file of the scenario gives the two lines expected.\<close>

theorem readUrlFile_spec:
  "(\<not> existsSync fs filePath \<longrightarrow>
      readUrlFile fs filePath = Inl (Error (''URL file not found: '' @ filePath))) \<and>
   (\<forall>content. existsSync fs filePath \<and> readFile fs filePath = Inr content \<longrightarrow>
      readUrlFile fs filePath =
        (if url_lines content = [] then Inl (Error (''No URLs found in file: '' @ filePath))
         else Inr (url_lines content))) \<and>
   url_lines ''# comment\<newline>\<newline>https://example.com/page\<newline>not a url''
     = [''https://example.com/page'', ''not a url'']"
  by (simp add: readUrlFile_def readUrlFile_lines url_lines_def [symmetric] url_lines_scenario
      del: length_greater_0_conv)

text \<open>An instance: the file of the scenario, a file with a comment only, and a missing file.\<close>

theorem readUrlFile_spec_witness:
  "readUrlFile example_fs ''urls.txt'' = Inr [''https://example.com/page'', ''not a url''] \<and>
   readUrlFile example_fs ''empty.txt'' = Inl (Error ''No URLs found in file: empty.txt'') \<and>
   readUrlFile example_fs ''missing.txt'' = Inl (Error ''URL file not found: missing.txt'')"
proof -
  have e: "url_lines ''# nothing here\<newline>'' = []" by code_simp
  have 1: "existsSync example_fs ''urls.txt'' \<and> readFile example_fs ''urls.txt''
             = Inr ''# comment\<newline>\<newline>https://example.com/page\<newline>not a url''"
    by (simp add: example_fs_def)
  have 2: "existsSync example_fs ''empty.txt'' \<and> readFile example_fs ''empty.txt''
             = Inr ''# nothing here\<newline>''"
    by (simp add: example_fs_def)
  have 3: "\<not> existsSync example_fs ''missing.txt''" by (simp add: example_fs_def)
  show ?thesis
    using readUrlFile_spec [of example_fs "''urls.txt''"] readUrlFile_spec [of example_fs "''empty.txt''"]
      readUrlFile_spec [of example_fs "''missing.txt''"] 1 2 3 e
    by simp
qed

subsection \<open>C9\<close>

text \<open>Claim C9. For an array in which every entry has a boolean \<open>success\<close> field,
  \<open>printBatchSummary\<close> throws nothing, counts an entry as a success when the field is
  \<open>true\<close> and as a failure otherwise, so that the two counts add up to the length of the
  array, and logs the header, two lines for every entry in order, the first tagged OK or
  FAIL, and the totals line with these counts.\<close>

theorem printBatchSummary_totals:
  assumes "\<forall>r \<in> set rs. \<exists>obj b. r = Some obj \<and> obj ''success'' = Some (JBool b)"
  shows "thrown (printBatchSummary rs) = None \<and>
         successCount (printBatchSummary rs) = length (filter job_succeeded rs) \<and>
         failCount (printBatchSummary rs) = length (filter (\<lambda>r. \<not> job_succeeded r) rs) \<and>
         successCount (printBatchSummary rs) + failCount (printBatchSummary rs) = length rs \<and>
         logged (printBatchSummary rs) =
           [replicate 70 CHR ''='', ''Batch Recording Summary'', replicate 70 CHR ''='']
           @ concat (map job_lines rs)
           @ [replicate 70 CHR ''-'',
              ''Total: '' @ String (int (length rs))
                @ '' | Success: '' @ String (int (successCount (printBatchSummary rs)))
                @ '' | Failed: '' @ String (int (failCount (printBatchSummary rs))),
              replicate 70 CHR ''='']"
proof -
  have "length (filter job_succeeded rs) + length (filter (\<lambda>r. \<not> job_succeeded r) rs) = length rs"
    by (rule sum_length_filter_compl)
  then show ?thesis
    by (simp add: printBatchSummary_def summary_loop_counts [OF assms] Let_def)
qed

text \<open>An instance: one success and one failure.\<close>

theorem printBatchSummary_totals_witness:
  "thrown (printBatchSummary example_results) = None \<and>
   successCount (printBatchSummary example_results) = length (filter job_succeeded example_results) \<and>
   successCount (printBatchSummary example_results) + failCount (printBatchSummary example_results)
     = length example_results"
proof -
  have h: "\<forall>r \<in> set example_results. \<exists>obj b. r = Some obj \<and> obj ''success'' = Some (JBool b)"
    by (auto simp: example_results_def)
  show ?thesis using printBatchSummary_totals [of example_results] h by blast
qed

text \<open>The report for the two results of the example.\<close>

lemma printBatchSummary_example:
  "logged (printBatchSummary example_results) =
     [''======================================================================'',
      ''Batch Recording Summary'',
      ''======================================================================'',
      ''  [OK] a'', ''         /out/001-a.mp4'',
      ''  [FAIL] b'', ''         timeout'',
      ''----------------------------------------------------------------------'',
      ''Total: 2 | Success: 1 | Failed: 1'',
      ''======================================================================'']"
  by code_simp

subsection \<open>C10\<close>

text \<open>Claim C10. With a concurrency of 0 or less and a list of URLs that is not empty, once the
  output directory is there, \<open>runParallel\<close> launches no worker, writes no slot and returns
  an array as long as the list in which every slot is a hole, under any schedule.\<close>

theorem runParallel_no_workers:
  assumes "c \<le> 0" "urls \<noteq> []" "ensureOutputDir fs outputDir = Inr ()"
  shows "runParallel fs U urls outputDir rf sa (Some c) sched
           = Some (Inr (replicate (length urls) None)) \<and>
         workers (runParallel_pool U urls outputDir rf sa (Some c) sched) = [] \<and>
         writes (runParallel_pool U urls outputDir rf sa (Some c) sched) = []"
proof -
  let ?s0 = "\<lparr>nextIndex = 0, results = replicate (length urls) None, workers = [], writes = []\<rparr>"
  have "launch_loop U urls outputDir rf sa c 0 ?s0 = ?s0"
    using assms(1) by (subst launch_loop.simps) simp
  moreover have "event_loop U urls outputDir rf sa sched ?s0 = ?s0"
    by (cases sched) (simp_all add: awaiting_def)
  ultimately have "runParallel_pool U urls outputDir rf sa (Some c) sched = ?s0"
    by (simp add: runParallel_pool_def)
  then show ?thesis
    using assms(3) by (simp add: runParallel_def promise_all_def awaiting_def)
qed

text \<open>An instance: five URLs at concurrency 0.\<close>

theorem runParallel_no_workers_witness:
  "(0::int) \<le> 0 \<and> example_urls \<noteq> [] \<and> ensureOutputDir example_fs ''/out'' = Inr () \<and>
   runParallel example_fs example_parser example_urls ''/out'' record_ok Map.empty (Some 0) [0, 1]
     = Some (Inr (replicate (length example_urls) None))"
proof -
  have h1: "(0::int) \<le> 0" by simp
  have h2: "example_urls \<noteq> []" by (simp add: example_urls_def)
  show ?thesis
    using runParallel_no_workers [OF h1 h2 example_dir, of example_parser record_ok Map.empty "[0, 1]"]
      h2 example_dir by simp
qed

end
